theory Spec2Isabelle
  imports Main "HOL-Library.Word"
begin

section \<open>Common conventions\<close>

text \<open>
  A C string is represented by the HOL string of its bytes before the terminating NUL;
  \<open>peek s i\<close> is the byte \<open>s[i]\<close>, the terminator at \<open>i = length s\<close>.
  C arrays of fixed size are total functions on indices; every access whose index the
  source does not keep below the array size by itself is a branch that yields the fault
  \<open>OutOfBounds\<close>. A spin-wait that nothing in a sequential run can end is the fault
  \<open>Blocked\<close>.
\<close>

datatype fault = OutOfBounds | NullDeref | Blocked

abbreviation NUL :: char where "NUL \<equiv> CHR 0x00"
abbreviation BS :: char where "BS \<equiv> CHR 0x08"
abbreviation TAB :: char where "TAB \<equiv> CHR 0x09"
abbreviation NL :: char where "NL \<equiv> CHR 0x0A"
abbreviation SLASH :: char where "SLASH \<equiv> CHR ''/''"
abbreviation DOT :: char where "DOT \<equiv> CHR ''.''"

definition cstring :: "string \<Rightarrow> bool" where
  "cstring s = (NUL \<notin> set s)"

definition peek :: "string \<Rightarrow> nat \<Rightarrow> char" where
  "peek s i = (if i < length s then s ! i else NUL)"

text \<open>Memory that holds zero bytes only, for the closed theorems.\<close>

definition zeroed :: "nat \<Rightarrow> char" where
  "zeroed k = NUL"

section \<open>Keyboard line discipline (kernel/misc/kbd.c)\<close>

definition MAX_CODE :: "8 word" where "MAX_CODE = 0x57"
definition CAPSLOCK :: "8 word" where "CAPSLOCK = 0x3a"
definition RIGHT_SHIFT :: "8 word" where "RIGHT_SHIFT = 0x36"
definition LEFT_SHIFT :: "8 word" where "LEFT_SHIFT = 0x2a"
definition RIGHT_SHIFT_REL :: "8 word" where "RIGHT_SHIFT_REL = 0xb6"
definition LEFT_SHIFT_REL :: "8 word" where "LEFT_SHIFT_REL = 0xaa"
definition LEFT_CTRL :: "8 word" where "LEFT_CTRL = 0x1d"
definition LEFT_CTRL_REL :: "8 word" where "LEFT_CTRL_REL = 0x9d"
definition KBD_BUF_SIZE :: nat where "KBD_BUF_SIZE = 2048"
definition BIG_BUF_SIZE :: nat where "BIG_BUF_SIZE = 65536"

text \<open>The four scancode tables, 58 initialisers each, in the source's rows of 16, 16, 16
  and 10 entries.\<close>

definition ascii_capslock :: "char list" where
  "ascii_capslock =
     [NUL] @ ''?1234567890-='' @ [BS, TAB]
     @ ''QWERTYUIOP[]'' @ [NL, NUL] @ ''AS''
     @ ''DFGHJKL;'' @ [CHR 0x27, CHR 0x60, NUL, CHR 0x5C] @ ''ZXCV''
     @ ''BNM,./'' @ [NUL, NUL, NUL] @ '' ''"

definition ascii_shift :: "char list" where
  "ascii_shift =
     [NUL] @ ''?!@#$%'' @ [CHR 0x5E] @ ''&*()_+'' @ [BS, TAB]
     @ ''QWERTYUIOP{}'' @ [NL, NUL] @ ''AS''
     @ ''DFGHJKL:'' @ [CHR 0x22] @ ''~'' @ [NUL] @ ''|'' @ ''ZXCV''
     @ ''BNM<>?'' @ [NUL, NUL, NUL] @ '' ''"

definition ascii_shift_capslock :: "char list" where
  "ascii_shift_capslock =
     [NUL] @ ''?!@#$%'' @ [CHR 0x5E] @ ''&*()_+'' @ [BS, TAB]
     @ ''qwertyuiop{}'' @ [NL, NUL] @ ''as''
     @ ''dfghjkl:'' @ [CHR 0x22] @ ''~'' @ [NUL] @ ''|'' @ ''zxcv''
     @ ''bnm<>?'' @ [NUL, NUL, NUL] @ '' ''"

definition ascii_nomod :: "char list" where
  "ascii_nomod =
     [NUL] @ ''?1234567890-='' @ [BS, TAB]
     @ ''qwertyuiop[]'' @ [NL, NUL] @ ''as''
     @ ''dfghjkl;'' @ [CHR 0x27, CHR 0x60, NUL, CHR 0x5C] @ ''zxcv''
     @ ''bnm,./'' @ [NUL, NUL, NUL] @ '' ''"

text \<open>
  The file-scope variables of kbd.c, the two flags of \<open>termios.c_lflag\<close> the file tests
  (\<open>c_lflag & ICANON\<close>, \<open>c_lflag & ECHO\<close>; misc/tty.h is not under src/), and the bytes
  handed to \<open>tty_putchar\<close>, oldest first. The modifier latches only ever hold 0 or 1
  (\<open>x = !x\<close>), so they are booleans. The locks are left out: the handler and the reader
  each run to their end without interleaving.
\<close>

record kbd_state =
  kbd_buf_i :: nat
  kbd_buf :: "nat \<Rightarrow> char"
  big_buf_i :: nat
  big_buf :: "nat \<Rightarrow> char"
  capslock_active :: bool
  shift_active :: bool
  ctrl_active :: bool
  icanon :: bool
  echo :: bool
  tty_out :: "char list"

definition tty_putchar :: "char \<Rightarrow> kbd_state \<Rightarrow> kbd_state" where
  "tty_putchar c s = s\<lparr>tty_out := tty_out s @ [c]\<rparr>"

text \<open>\<open>table[input_byte]\<close>: a read past the 58 initialisers is out of bounds.\<close>

definition table_at :: "char list \<Rightarrow> 8 word \<Rightarrow> fault + char" where
  "table_at t b = (if unat b < length t then Inr (t ! unat b) else Inl OutOfBounds)"

definition decode :: "kbd_state \<Rightarrow> 8 word \<Rightarrow> fault + char" where
  "decode s b =
     (if \<not> capslock_active s \<and> \<not> shift_active s then table_at ascii_nomod b
      else if \<not> capslock_active s \<and> shift_active s then table_at ascii_shift b
      else if capslock_active s \<and> shift_active s then table_at ascii_shift_capslock b
      else table_at ascii_capslock b)"

text \<open>\<open>kbd_buf[kbd_buf_i++] = c\<close>\<close>

definition kbd_put :: "char \<Rightarrow> kbd_state \<Rightarrow> fault + kbd_state" where
  "kbd_put c s =
     (if kbd_buf_i s < KBD_BUF_SIZE
      then Inr (s\<lparr>kbd_buf := (kbd_buf s)(kbd_buf_i s := c), kbd_buf_i := Suc (kbd_buf_i s)\<rparr>)
      else Inl OutOfBounds)"

text \<open>The label \<open>regular_character\<close>.\<close>

definition regular_character :: "char \<Rightarrow> kbd_state \<Rightarrow> fault + kbd_state" where
  "regular_character c s =
     (if kbd_buf_i s = KBD_BUF_SIZE then Inr s
      else case kbd_put c s of
             Inl e \<Rightarrow> Inl e
           | Inr s1 \<Rightarrow> Inr (if echo s1 then tty_putchar c s1 else s1))"

text \<open>
  The copy loop of the newline case:
  \<open>for (i = 0; i < kbd_buf_i; i++) { if (big_buf_i == BIG_BUF_SIZE) break;
  big_buf[big_buf_i++] = kbd_buf[i]; }\<close>
\<close>

function commit_loop :: "nat \<Rightarrow> kbd_state \<Rightarrow> fault + kbd_state" where
  "commit_loop i s =
     (if i < kbd_buf_i s then
        (if big_buf_i s = BIG_BUF_SIZE then Inr s
         else if \<not> big_buf_i s < BIG_BUF_SIZE \<or> \<not> i < KBD_BUF_SIZE then Inl OutOfBounds
         else commit_loop (Suc i)
                (s\<lparr>big_buf := (big_buf s)(big_buf_i s := kbd_buf s i),
                   big_buf_i := Suc (big_buf_i s)\<rparr>))
      else Inr s)"
  by pat_completeness auto
termination
  by (relation "measure (\<lambda>(i, s). kbd_buf_i s - i)") auto

declare commit_loop.simps [simp del]

text \<open>The \<open>switch (c)\<close> of the handler with the code after it.\<close>

definition kbd_switch :: "char \<Rightarrow> kbd_state \<Rightarrow> fault + kbd_state" where
  "kbd_switch c s =
     (if c = NL then
        (if \<not> icanon s then regular_character c s
         else if kbd_buf_i s = KBD_BUF_SIZE then regular_character c s
         else case kbd_put c s of
                Inl e \<Rightarrow> Inl e
              | Inr s1 \<Rightarrow>
                  (case commit_loop 0 (if echo s1 then tty_putchar c s1 else s1) of
                     Inl e \<Rightarrow> Inl e
                   | Inr s2 \<Rightarrow> Inr (s2\<lparr>kbd_buf_i := 0\<rparr>)))
      else if c = BS then
        (if \<not> icanon s then regular_character c s
         else if kbd_buf_i s = 0 then regular_character c s
         else if \<not> kbd_buf_i s - 1 < KBD_BUF_SIZE then Inl OutOfBounds
         else let s1 = s\<lparr>kbd_buf := (kbd_buf s)(kbd_buf_i s - 1 := NUL),
                         kbd_buf_i := kbd_buf_i s - 1\<rparr>
              in Inr (if echo s1
                      then tty_putchar BS (tty_putchar (CHR '' '') (tty_putchar BS s1))
                      else s1))
      else regular_character c s)"

definition kbd_handler :: "8 word \<Rightarrow> kbd_state \<Rightarrow> fault + kbd_state" where
  "kbd_handler input_byte s =
     (if ctrl_active s \<and> input_byte = 0x2e then Inr s
      else if input_byte = CAPSLOCK then Inr (s\<lparr>capslock_active := \<not> capslock_active s\<rparr>)
      else if input_byte = LEFT_SHIFT \<or> input_byte = RIGHT_SHIFT
              \<or> input_byte = LEFT_SHIFT_REL \<or> input_byte = RIGHT_SHIFT_REL
           then Inr (s\<lparr>shift_active := \<not> shift_active s\<rparr>)
      else if input_byte = LEFT_CTRL \<or> input_byte = LEFT_CTRL_REL
           then Inr (s\<lparr>ctrl_active := \<not> ctrl_active s\<rparr>)
      else if input_byte < MAX_CODE
           then (case decode s input_byte of
                   Inl e \<Rightarrow> Inl e
                 | Inr c \<Rightarrow> kbd_switch c s)
      else Inr s)"


text \<open>
  \<open>kbd_read\<close>, non-canonical branch: the drain loop
  \<open>for (; i < kbd_buf_i; i++) { buf[i] = kbd_buf[i]; kbd_buf[i] = '\0'; }\<close>.
  The caller's buffer is a region of unknown size, a total function here.
\<close>

function drain_loop :: "nat \<Rightarrow> (nat \<Rightarrow> char) \<Rightarrow> kbd_state \<Rightarrow> fault + (nat \<times> (nat \<Rightarrow> char) \<times> kbd_state)" where
  "drain_loop i buf s =
     (if i < kbd_buf_i s then
        (if \<not> i < KBD_BUF_SIZE then Inl OutOfBounds
         else drain_loop (Suc i) (buf(i := kbd_buf s i)) (s\<lparr>kbd_buf := (kbd_buf s)(i := NUL)\<rparr>))
      else Inr (i, buf, s))"
  by pat_completeness auto
termination
  by (relation "measure (\<lambda>(i, buf, s). kbd_buf_i s - i)") auto

declare drain_loop.simps [simp del]

text \<open>
  Canonical branch: the inner loop
  \<open>for (j = 0; j < big_buf_i; j++) big_buf[j] = big_buf[j+1];\<close>
\<close>

function shift_loop :: "nat \<Rightarrow> kbd_state \<Rightarrow> fault + kbd_state" where
  "shift_loop j s =
     (if j < big_buf_i s then
        (if \<not> j + 1 < BIG_BUF_SIZE then Inl OutOfBounds
         else shift_loop (Suc j) (s\<lparr>big_buf := (big_buf s)(j := big_buf s (j + 1))\<rparr>))
      else Inr s)"
  by pat_completeness auto
termination
  by (relation "measure (\<lambda>(j, s). big_buf_i s - j)") auto

declare shift_loop.simps [simp del]

text \<open>\<open>(int)i\<close> for a \<open>size_t\<close>: the low 32 bits, read as two's complement.\<close>

definition to_int :: "nat \<Rightarrow> int" where
  "to_int n = sint (word_of_nat n :: 32 word)"

text \<open>
  The outer loop \<open>for (i = 0; i < count; )\<close>. With \<open>wait\<close> still set and \<open>big_buf\<close>
  empty the reader releases the lock, yields and tries again: only the handler can end
  that wait, so a run of the reader alone is \<open>Blocked\<close>.
\<close>

function read_loop :: "nat \<Rightarrow> nat \<Rightarrow> bool \<Rightarrow> (nat \<Rightarrow> char) \<Rightarrow> kbd_state \<Rightarrow> fault + (int \<times> (nat \<Rightarrow> char) \<times> kbd_state)" where
  "read_loop i count wait buf s =
     (if i < count then
        (if big_buf_i s \<noteq> 0 then
           (case shift_loop 0 (s\<lparr>big_buf_i := big_buf_i s - 1\<rparr>) of
              Inl e \<Rightarrow> Inl e
            | Inr s1 \<Rightarrow> read_loop (Suc i) count False (buf(i := big_buf s 0)) s1)
         else if wait then Inl Blocked
         else Inr (to_int i, buf, s))
      else Inr (to_int count, buf, s))"
  by pat_completeness auto
termination
  by (relation "measure (\<lambda>(i, count, wait, buf, s). count - i)") auto

declare read_loop.simps [simp del]

definition kbd_read :: "(nat \<Rightarrow> char) \<Rightarrow> nat \<Rightarrow> kbd_state \<Rightarrow> fault + (int \<times> (nat \<Rightarrow> char) \<times> kbd_state)" where
  "kbd_read buf count s =
     (if \<not> icanon s then
        (if kbd_buf_i s = 0 then Inl Blocked
         else case drain_loop 0 buf s of
                Inl e \<Rightarrow> Inl e
              | Inr (i, buf1, s1) \<Rightarrow> Inr (to_int i, buf1, s1\<lparr>kbd_buf_i := 0\<rparr>))
      else read_loop 0 count True buf s)"

text \<open>The state at boot: every file-scope variable zero, \<open>termios\<close> as given.\<close>

definition kbd_init :: "bool \<Rightarrow> bool \<Rightarrow> kbd_state" where
  "kbd_init canon ech =
     \<lparr>kbd_buf_i = 0, kbd_buf = (\<lambda>_. NUL), big_buf_i = 0, big_buf = (\<lambda>_. NUL),
      capslock_active = False, shift_active = False, ctrl_active = False,
      icanon = canon, echo = ech, tty_out = []\<rparr>"

section \<open>Library routines used by the VFS\<close>

text \<open>
  Modelled from the spec: \<open>kstrlen\<close>, \<open>kstrcmp\<close>, \<open>kstrncmp\<close> and \<open>kstrcpy\<close> of
  lib/klib.c, which is not under src/. The spec's path handling is byte-level with
  NUL-terminated strings, so they get the contract of \<open>strlen\<close>, \<open>strcmp\<close>,
  \<open>strncmp\<close> and \<open>strcpy\<close>: \<open>kstrncmp a b n\<close> is 0 exactly when the first \<open>n\<close> bytes
  of the two strings, terminators included, agree.
\<close>

definition kstrlen :: "string \<Rightarrow> nat" where
  "kstrlen s = length s"

definition kstrcmp :: "string \<Rightarrow> string \<Rightarrow> int" where
  "kstrcmp a b = (if a = b then 0 else 1)"

definition kstrncmp :: "string \<Rightarrow> string \<Rightarrow> nat \<Rightarrow> int" where
  "kstrncmp a b n = (if take n (a @ [NUL]) = take n (b @ [NUL]) then 0 else 1)"

definition kstrcpy :: "(nat \<Rightarrow> char) \<Rightarrow> string \<Rightarrow> (nat \<Rightarrow> char)" where
  "kstrcpy dst src =
     (\<lambda>k. if k < length src then src ! k else if k = length src then NUL else dst k)"

text \<open>The C string that starts a buffer, looked for in its first \<open>n\<close> bytes.\<close>

definition read_cstr :: "(nat \<Rightarrow> char) \<Rightarrow> nat \<Rightarrow> string" where
  "read_cstr buf n = takeWhile (\<lambda>c. c \<noteq> NUL) (map buf [0..<n])"

text \<open>
  Modelled from the spec: the spinlock of lib/lock.h, which is not under src/. Acquiring a
  lock that is held spins until some other thread releases it.
\<close>

datatype lock_t = Unlocked | Locked

definition spinlock_acquire :: "lock_t \<Rightarrow> fault + lock_t" where
  "spinlock_acquire l = (case l of Locked \<Rightarrow> Inl Blocked | Unlocked \<Rightarrow> Inr Locked)"

definition spinlock_release :: "lock_t \<Rightarrow> lock_t" where
  "spinlock_release l = Unlocked"

section \<open>Mountpoint resolver (kernel/fd/vfs/vfs.c)\<close>

record 'fs mnt_t =
  name :: string
  fs :: 'fs
  magic :: int

text \<open>\<open>size_t\<close> values are naturals; \<open>(size_t)-1\<close> is \<open>SIZE_MAX\<close>.\<close>

definition SIZE_MAX :: nat where
  "SIZE_MAX = 18446744073709551615"

text \<open>
  The \<open>for\<close> loop over the dumped array, from index \<open>i\<close> on, carrying
  \<open>(guess, guess_size)\<close>. A slot of the dump is a pointer: \<open>None\<close> is the null pointer.
\<close>

fun mnt_scan :: "string \<Rightarrow> nat \<Rightarrow> 'fs mnt_t option list \<Rightarrow> nat \<times> nat \<Rightarrow> nat \<times> nat" where
  "mnt_scan path i [] (guess, guess_size) = (guess, guess_size)"
| "mnt_scan path i (None # rest) (guess, guess_size) =
     mnt_scan path (Suc i) rest (guess, guess_size)"
| "mnt_scan path i (Some m # rest) (guess, guess_size) =
     (let len = kstrlen (name m) in
      if kstrncmp path (name m) len = 0
         \<and> ((peek path len = SLASH \<or> peek path len = NUL) \<or> kstrcmp (name m) ''/'' = 0)
         \<and> len > guess_size
      then mnt_scan path (Suc i) rest (i, len)
      else mnt_scan path (Suc i) rest (guess, guess_size))"

text \<open>
  \<open>vfs_get_mountpoint\<close>. The second argument is what \<open>ht_dump\<close> (lib/ht.h, not under
  src/) hands back for the mount table: \<open>None\<close> for the null pointer, else the dumped
  array. The result is the returned pointer (\<open>None\<close> for null), \<open>*local_path\<close> if it was
  written, and the state of \<open>mountpoints_lock\<close> at the return.
\<close>

definition vfs_get_mountpoint ::
  "lock_t \<Rightarrow> 'fs mnt_t option list option \<Rightarrow> string
     \<Rightarrow> fault + ('fs mnt_t option \<times> string option \<times> lock_t)" where
  "vfs_get_mountpoint mountpoints_lock dump path =
     (case spinlock_acquire mountpoints_lock of
        Inl e \<Rightarrow> Inl e
      | Inr lk \<Rightarrow>
          (case dump of
             None \<Rightarrow> Inr (None, None, lk)
           | Some mnts \<Rightarrow>
               (case mnt_scan path 0 mnts (SIZE_MAX, 0) of
                  (guess, guess_size) \<Rightarrow>
                    let local_path = (if guess_size > 1 then drop guess_size path else path);
                        local_path = (if peek local_path 0 = NUL then ''/'' else local_path)
                    in if \<not> guess < length mnts then Inl OutOfBounds
                       else let ret = mnts ! guess;
                                lk = spinlock_release lk
                            in Inr (if guess \<noteq> SIZE_MAX then ret else None,
                                    Some local_path, lk))))"

text \<open>The records of a dump: its non-null slots, in order.\<close>

definition records :: "'a option list \<Rightarrow> 'a list" where
  "records xs = map the (filter (\<lambda>x. x \<noteq> None) xs)"

text \<open>
  The spec's words for a record that matches a path: \<open>target\<close> is a prefix of \<open>path\<close> and
  the next character of \<open>path\<close> is \<open>/\<close> or the end of the string, or \<open>target\<close> is
  exactly \<open>/\<close>.
\<close>

definition valid_prefix :: "string \<Rightarrow> string \<Rightarrow> bool" where
  "valid_prefix target path =
     (take (length target) path = target
      \<and> (peek path (length target) = SLASH \<or> peek path (length target) = NUL
          \<or> target = ''/''))"

text \<open>The test of the loop body without its \<open>len > guess_size\<close> part.\<close>

definition scan_ok :: "string \<Rightarrow> 'fs mnt_t \<Rightarrow> bool" where
  "scan_ok path m =
     (kstrncmp path (name m) (kstrlen (name m)) = 0
      \<and> ((peek path (kstrlen (name m)) = SLASH \<or> peek path (kstrlen (name m)) = NUL)
          \<or> kstrcmp (name m) ''/'' = 0))"

section \<open>Path normalizer (kernel/fd/vfs/vfs.c)\<close>

text \<open>
  The output buffer is memory of unknown size and unknown initial content, a total
  function on offsets from \<open>orig_ptr\<close>; \<open>path_ptr\<close> is such an offset. A pointer that
  would move below \<open>orig_ptr\<close> is \<open>OutOfBounds\<close>.
\<close>

text \<open>\<open>while (*path_ptr != '/') path_ptr--;\<close>\<close>

function rewind :: "(nat \<Rightarrow> char) \<Rightarrow> nat \<Rightarrow> fault + nat" where
  "rewind buf p =
     (if buf p = SLASH then Inr p
      else if p = 0 then Inl OutOfBounds
      else rewind buf (p - 1))"
  by pat_completeness auto
termination
  by (relation "measure (\<lambda>(buf, p). p)") auto

declare rewind.simps [simp del]

text \<open>The label \<open>term\<close>; the result is the string left in the buffer.\<close>

definition path_term :: "(nat \<Rightarrow> char) \<Rightarrow> nat \<Rightarrow> fault + string" where
  "path_term buf p =
     (if p = 0 then Inl OutOfBounds
      else let p1 = (if buf (p - 1) = SLASH \<and> p - 1 \<noteq> 0 then p - 1 else p)
           in Inr (read_cstr (buf(p1 := NUL)) (Suc p1)))"

text \<open>
  The \<open>for (;;)\<close> loop with the jump into it: \<open>path_scan False\<close> is the top of the loop
  (the \<open>switch\<close>), \<open>path_scan True\<close> the label \<open>first_run\<close>.
\<close>

function path_scan :: "bool \<Rightarrow> (nat \<Rightarrow> char) \<Rightarrow> nat \<Rightarrow> string \<Rightarrow> fault + string" where
  "path_scan at_first_run buf p path =
     (if \<not> at_first_run then
        (if peek path 0 = SLASH then path_scan True buf p (tl path)
         else if peek path 0 = NUL then path_term buf p
         else path_scan False (buf(p := peek path 0)) (Suc p) (tl path))
      else
        (if peek path 0 = SLASH then path_scan False buf p path
         else if kstrncmp path ''.'' 2 = 0 \<or> kstrncmp path ''./'' 3 = 0
           then path_term buf p
         else if kstrncmp path ''..'' 3 = 0 \<or> kstrncmp path ''../'' 4 = 0
           then (case rewind buf p of
                   Inl e \<Rightarrow> Inl e
                 | Inr q \<Rightarrow> path_term buf (if q = 0 then Suc q else q))
         else if kstrncmp path ''../'' 3 = 0
           then (case rewind buf p of
                   Inl e \<Rightarrow> Inl e
                 | Inr q \<Rightarrow>
                     let q1 = (if q = 0 then Suc q else q)
                     in path_scan False (buf(q1 := NUL)) q1 (drop 2 path))
         else if kstrncmp path ''./'' 2 = 0
           then path_scan False buf p (drop 1 path)
         else if p = 0 then Inl OutOfBounds
         else if p - 1 \<noteq> 0 \<and> buf (p - 1) \<noteq> SLASH
           then path_scan False (buf(p := SLASH)) (Suc p) path
         else path_scan False buf p path))"
  by pat_completeness auto
termination
  by (relation "measure (\<lambda>(fr, buf, p, path). 2 * length path + (if fr then 1 else 0))")
     (auto simp: peek_def kstrncmp_def neq_Nil_conv split: if_splits)

declare path_scan.simps [simp del]

text \<open>
  \<open>vfs_get_absolute_path\<close>. After \<open>kstrcpy(path_ptr, pwd)\<close> the string at \<open>path_ptr\<close> is
  \<open>pwd\<close>, so \<open>kstrlen(path_ptr)\<close> is \<open>kstrlen pwd\<close>. The result is the string left in
  the buffer.
\<close>

definition vfs_get_absolute_path :: "(nat \<Rightarrow> char) \<Rightarrow> string \<Rightarrow> string \<Rightarrow> fault + string" where
  "vfs_get_absolute_path path_ptr path pwd =
     (if peek path 0 = NUL then Inr (read_cstr (kstrcpy path_ptr pwd) (Suc (kstrlen pwd)))
      else if peek path 0 \<noteq> SLASH
        then path_scan True (kstrcpy path_ptr pwd) (kstrlen pwd) path
      else path_scan True (path_ptr(0 := SLASH)) 1 (tl path))"

text \<open>What the normalizer promises of its result, one predicate per property.\<close>

definition is_absolute :: "string \<Rightarrow> bool" where
  "is_absolute s = (peek s 0 = SLASH)"

fun no_double_slash :: "string \<Rightarrow> bool" where
  "no_double_slash (a # b # cs) = (\<not> (a = SLASH \<and> b = SLASH) \<and> no_double_slash (b # cs))"
| "no_double_slash cs = True"

fun split_slash :: "string \<Rightarrow> string list" where
  "split_slash [] = [[]]"
| "split_slash (c # cs) =
     (if c = SLASH then [] # split_slash cs
      else (case split_slash cs of [] \<Rightarrow> [[c]] | g # gs \<Rightarrow> (c # g) # gs))"

definition no_dot_segments :: "string \<Rightarrow> bool" where
  "no_dot_segments s = (''.'' \<notin> set (split_slash s) \<and> ''..'' \<notin> set (split_slash s))"

definition no_trailing_slash :: "string \<Rightarrow> bool" where
  "no_trailing_slash s = (s = ''/'' \<or> (s \<noteq> [] \<and> last s \<noteq> SLASH))"

definition normalized :: "string \<Rightarrow> bool" where
  "normalized s =
     (is_absolute s \<and> no_double_slash s \<and> no_dot_segments s \<and> no_trailing_slash s)"

text \<open>
  For the proofs: a good segment, the string of a list of segments (each with its leading
  \<open>/\<close>), the canonical paths (\<open>/\<close>, or the string of a non-empty list of good segments),
  the canonical paths with a \<open>/\<close> appended, the part of the buffer written so far, and the
  rest of the segment the input stands in.
\<close>

definition good_seg :: "string \<Rightarrow> bool" where
  "good_seg g = (g \<noteq> [] \<and> g \<noteq> ''.'' \<and> g \<noteq> ''..'' \<and> SLASH \<notin> set g \<and> NUL \<notin> set g)"

definition join_segs :: "string list \<Rightarrow> string" where
  "join_segs gs = concat (map ((#) SLASH) gs)"

definition canon :: "string \<Rightarrow> bool" where
  "canon s = (\<exists>gs. list_all good_seg gs \<and> s = (if gs = [] then ''/'' else join_segs gs))"

definition open_form :: "string \<Rightarrow> bool" where
  "open_form s = (\<exists>gs. list_all good_seg gs \<and> s = join_segs gs @ ''/'')"

definition written :: "(nat \<Rightarrow> char) \<Rightarrow> nat \<Rightarrow> string" where
  "written buf p = map buf [0..<p]"

definition cur_seg :: "string \<Rightarrow> string" where
  "cur_seg path = takeWhile (\<lambda>c. c \<noteq> SLASH \<and> c \<noteq> NUL) path"

text \<open>What holds of the buffer and the input at \<open>first_run\<close> and at the top of the loop.\<close>

definition path_inv :: "bool \<Rightarrow> (nat \<Rightarrow> char) \<Rightarrow> nat \<Rightarrow> string \<Rightarrow> bool" where
  "path_inv at_first_run buf p path =
     (if at_first_run then canon (written buf p)
      else (\<exists>opn part. written buf p = opn @ part \<and> open_form opn
              \<and> SLASH \<notin> set part \<and> NUL \<notin> set part
              \<and> (good_seg (part @ cur_seg path)
                  \<or> (part = [] \<and> cur_seg path = [] \<and> (peek path 0 = NUL \<or> opn = ''/'')))))"

section \<open>Filesystem drivers, the VFS handle table and open/close (kernel/fd/vfs/vfs.c)\<close>

text \<open>
  A driver operation is a C function called through a pointer of the driver's table, with
  whatever arguments the call site passes. It may change the driver's own state \<open>drv\<close>,
  \<open>errno\<close> and the kernel log.
\<close>

datatype arg = AInt int | AStr string

record 'd env =
  errno :: int
  klog :: "string list"
  drv :: 'd

type_synonym 'd fs_op = "arg list \<Rightarrow> 'd env \<Rightarrow> int \<times> 'd env"

text \<open>
  Modelled from the spec: \<open>struct fs_t\<close> of fd/vfs/vfs.h, which is not under src/. Per
  \<open>vfs_install_fs\<close> it is a 256-byte type name followed by pointer-sized operation slots
  up to \<open>sizeof(struct fs_t)\<close>; a slot holding 0 is \<open>None\<close>. The order of the slots is the
  one in which the spec lists the operations.
\<close>

record 'd fs_t =
  fs_name :: string
  fs_ops :: "'d fs_op option list"

definition FS_MOUNT :: nat where "FS_MOUNT = 0"
definition FS_OPEN :: nat where "FS_OPEN = 1"
definition FS_CLOSE :: nat where "FS_CLOSE = 2"
definition FS_DUP :: nat where "FS_DUP = 3"
definition FS_READ :: nat where "FS_READ = 4"
definition FS_WRITE :: nat where "FS_WRITE = 5"
definition FS_LSEEK :: nat where "FS_LSEEK = 6"
definition FS_FSTAT :: nat where "FS_FSTAT = 7"
definition FS_READDIR :: nat where "FS_READDIR = 8"
definition FS_SYNC :: nat where "FS_SYNC = 9"

text \<open>\<open>fs->op(args)\<close>: the call through slot \<open>k\<close>; a null slot cannot be called.\<close>

definition fs_call :: "'d fs_t \<Rightarrow> nat \<Rightarrow> arg list \<Rightarrow> 'd env \<Rightarrow> fault + (int \<times> 'd env)" where
  "fs_call f k args e =
     (if \<not> k < length (fs_ops f) then Inl OutOfBounds
      else case fs_ops f ! k of
             None \<Rightarrow> Inl NullDeref
           | Some g \<Rightarrow> Inr (g args e))"

text \<open>
  \<open>vfs_call_invalid\<close>. The value of \<open>ENOSYS\<close> (lib/errno.h, not under src/) is a
  parameter.
\<close>

definition vfs_call_invalid :: "int \<Rightarrow> 'd env \<Rightarrow> int \<times> 'd env" where
  "vfs_call_invalid ENOSYS e =
     (- 1, e\<lparr>klog := klog e
                 @ [''vfs: Unimplemented filesystem call occurred, returning ENOSYS!''],
              errno := ENOSYS\<rparr>)"

text \<open>The loop of \<open>vfs_install_fs\<close> over the slots: \<open>if (!p[i]) p[i] = vfs_call_invalid\<close>.\<close>

fun patch_slots :: "int \<Rightarrow> 'd fs_op option list \<Rightarrow> 'd fs_op option list" where
  "patch_slots ENOSYS [] = []"
| "patch_slots ENOSYS (None # p) =
     Some (\<lambda>args. vfs_call_invalid ENOSYS) # patch_slots ENOSYS p"
| "patch_slots ENOSYS (Some g # p) = Some g # patch_slots ENOSYS p"

text \<open>
  Modelled from the spec: \<open>ht_add\<close> of lib/ht.h, which is not under src/: a table keyed
  by name that stores a copy of the element and refuses a name it already holds.
\<close>

definition ht_add :: "(string \<rightharpoonup> 'a) \<Rightarrow> string \<Rightarrow> 'a \<Rightarrow> int \<times> (string \<rightharpoonup> 'a)" where
  "ht_add tbl key v = (case tbl key of Some _ \<Rightarrow> (- 1, tbl) | None \<Rightarrow> (0, tbl(key \<mapsto> v)))"

text \<open>
  \<open>vfs_install_fs\<close>: the driver's own struct is patched in place, then added to
  \<open>filesystems\<close>. The result is the return value, the patched struct and the table.
\<close>

definition vfs_install_fs ::
  "int \<Rightarrow> 'd fs_t \<Rightarrow> (string \<rightharpoonup> 'd fs_t) \<Rightarrow> int \<times> 'd fs_t \<times> (string \<rightharpoonup> 'd fs_t)" where
  "vfs_install_fs ENOSYS filesystem filesystems =
     (let patched = filesystem\<lparr>fs_ops := patch_slots ENOSYS (fs_ops filesystem)\<rparr>
      in case ht_add filesystems (fs_name patched) patched of
           (r, tbl) \<Rightarrow> (r, patched, tbl))"

text \<open>\<open>struct vfs_handle_t\<close>; its field \<open>fs\<close> is \<open>h_fs\<close> here.\<close>

record 'd vfs_handle_t =
  h_fs :: "'d fs_t"
  intern_fd :: int

text \<open>
  Modelled from the spec: the dynarray of lib/dynarray.h, which is not under src/: a
  reference-counted sparse vector. \<open>dynarray_getelem\<close> takes a reference on the element
  at an index and hands it back (null for an empty slot), \<open>dynarray_unref\<close> releases a
  reference, \<open>dynarray_remove\<close> removes the entry, \<open>dynarray_add\<close> stores a copy in the
  first empty slot, growing the vector up to \<open>limit\<close> slots, and returns the index or -1
  when the table cannot take the element.
\<close>

record 'a dyn_slot =
  refcount :: nat
  elem :: 'a

record 'a dynarray =
  slots :: "'a dyn_slot option list"
  limit :: nat

definition slot_at :: "'a dynarray \<Rightarrow> int \<Rightarrow> 'a dyn_slot option" where
  "slot_at d i = (if 0 \<le> i \<and> nat i < length (slots d) then slots d ! nat i else None)"

definition dynarray_getelem :: "'a dynarray \<Rightarrow> int \<Rightarrow> 'a option \<times> 'a dynarray" where
  "dynarray_getelem d i =
     (case slot_at d i of
        None \<Rightarrow> (None, d)
      | Some s \<Rightarrow>
          (Some (elem s), d\<lparr>slots := (slots d)[nat i := Some (s\<lparr>refcount := Suc (refcount s)\<rparr>)]\<rparr>))"

definition dynarray_unref :: "'a dynarray \<Rightarrow> int \<Rightarrow> 'a dynarray" where
  "dynarray_unref d i =
     (case slot_at d i of
        None \<Rightarrow> d
      | Some s \<Rightarrow> d\<lparr>slots := (slots d)[nat i := Some (s\<lparr>refcount := refcount s - 1\<rparr>)]\<rparr>)"

definition dynarray_remove :: "'a dynarray \<Rightarrow> int \<Rightarrow> int \<times> 'a dynarray" where
  "dynarray_remove d i =
     (case slot_at d i of
        None \<Rightarrow> (- 1, d)
      | Some s \<Rightarrow> (0, d\<lparr>slots := (slots d)[nat i := None]\<rparr>))"

fun first_empty :: "'a option list \<Rightarrow> nat" where
  "first_empty [] = 0"
| "first_empty (None # xs) = 0"
| "first_empty (Some x # xs) = Suc (first_empty xs)"

definition dynarray_add :: "'a dynarray \<Rightarrow> 'a \<Rightarrow> int \<times> 'a dynarray" where
  "dynarray_add d x =
     (let i = first_empty (slots d); s = Some \<lparr>refcount = 0, elem = x\<rparr>
      in if i < length (slots d) then (int i, d\<lparr>slots := (slots d)[i := s]\<rparr>)
         else if length (slots d) < limit d then (int i, d\<lparr>slots := slots d @ [s]\<rparr>)
         else (- 1, d))"

text \<open>
  \<open>vfs_close\<close>, on the handle table and the drivers' side of the world.
\<close>

definition vfs_close ::
  "int \<Rightarrow> 'd vfs_handle_t dynarray \<Rightarrow> 'd env
     \<Rightarrow> fault + (int \<times> 'd vfs_handle_t dynarray \<times> 'd env)" where
  "vfs_close fd vfs_handles e =
     (case dynarray_getelem vfs_handles fd of
        (None, h1) \<Rightarrow> Inl NullDeref
      | (Some fd_copy, h1) \<Rightarrow>
          let h2 = dynarray_unref h1 fd;
              h3 = snd (dynarray_remove h2 fd)
          in case fs_call (h_fs fd_copy) FS_CLOSE [AInt (intern_fd fd_copy)] e of
               Inl f \<Rightarrow> Inl f
             | Inr (r, e1) \<Rightarrow> Inr (if r \<noteq> 0 then - 1 else 0, h3, e1))"

text \<open>
  \<open>struct file_descriptor_t\<close> as \<open>open\<close> fills it: the index into the handle table and
  the handler table, of which the file has one, \<open>vfs_functions\<close>.
\<close>

datatype fd_handler_t = Vfs_functions

record file_descriptor_t =
  fd_intern_fd :: int
  fd_handler :: fd_handler_t

text \<open>
  The globals \<open>open\<close> works on: the lock and the dump of the mount table, the handle
  table, the drivers' side, and the file-descriptor table behind \<open>fd_create\<close>.
\<close>

record ('d, 'p) vfs_state =
  mountpoints_lock :: lock_t
  mountpoints :: "'d fs_t mnt_t option list option"
  vfs_handles :: "'d vfs_handle_t dynarray"
  env :: "'d env"
  fd_table :: 'p

text \<open>
  \<open>open\<close>. \<open>fd_create\<close> (the generic file-descriptor table, not under src/) is a
  parameter.
\<close>

definition "open" ::
  "(file_descriptor_t \<Rightarrow> 'p \<Rightarrow> int \<times> 'p) \<Rightarrow> string \<Rightarrow> int \<Rightarrow> ('d, 'p) vfs_state
     \<Rightarrow> fault + (int \<times> ('d, 'p) vfs_state)" where
  "open fd_create path mode st =
     (case vfs_get_mountpoint (mountpoints_lock st) (mountpoints st) path of
        Inl f \<Rightarrow> Inl f
      | Inr (None, loc, lk) \<Rightarrow> Inr (- 1, st\<lparr>mountpoints_lock := lk\<rparr>)
      | Inr (Some mountpoint, None, lk) \<Rightarrow> Inl NullDeref
      | Inr (Some mountpoint, Some loc_path, lk) \<Rightarrow>
          (case fs_call (fs mountpoint) FS_OPEN
                  [AStr loc_path, AInt mode, AInt (magic mountpoint)] (env st) of
             Inl f \<Rightarrow> Inl f
           | Inr (ifd, e1) \<Rightarrow>
               if ifd = - 1 then Inr (- 1, st\<lparr>mountpoints_lock := lk, env := e1\<rparr>)
               else case dynarray_add (vfs_handles st) \<lparr>h_fs = fs mountpoint, intern_fd = ifd\<rparr> of
                      (vfs_fd, h1) \<Rightarrow>
                        (case fd_create \<lparr>fd_intern_fd = vfs_fd, fd_handler = Vfs_functions\<rparr>
                                (fd_table st) of
                           (r, t1) \<Rightarrow>
                             Inr (r, st\<lparr>mountpoints_lock := lk, vfs_handles := h1,
                                        env := e1, fd_table := t1\<rparr>))))"

text \<open>
  Sample drivers for the closed theorems below. The driver state counts the internal
  fds that are open. \<open>sample_open\<close> hands out internal fd 5; \<open>sample_close\<close> gives one
  back and succeeds; \<open>failing_close\<close> fails and changes nothing.
\<close>

definition sample_open :: "nat fs_op" where
  "sample_open args e = (5, e\<lparr>drv := Suc (drv e)\<rparr>)"

definition sample_close :: "nat fs_op" where
  "sample_close args e = (0, e\<lparr>drv := drv e - 1\<rparr>)"

definition failing_close :: "nat fs_op" where
  "failing_close args e = (- 1, e)"

definition sample_fs :: "nat fs_op \<Rightarrow> nat fs_t" where
  "sample_fs close_op =
     \<lparr>fs_name = ''samplefs'',
      fs_ops = [None, Some sample_open, Some close_op, None, None, None, None, None, None, None]\<rparr>"

definition sample_env :: "nat \<Rightarrow> nat env" where
  "sample_env n = \<lparr>errno = 0, klog = [], drv = n\<rparr>"

text \<open>A stand-in for \<open>fd_create\<close>: the descriptor goes to the end of a list.\<close>

definition sample_fd_create :: "file_descriptor_t \<Rightarrow> file_descriptor_t list \<Rightarrow> int \<times> file_descriptor_t list" where
  "sample_fd_create fd t = (int (length t), t @ [fd])"

section \<open>Keyboard: proofs\<close>

lemmas kbd_consts = MAX_CODE_def CAPSLOCK_def RIGHT_SHIFT_def LEFT_SHIFT_def
  RIGHT_SHIFT_REL_def LEFT_SHIFT_REL_def LEFT_CTRL_def LEFT_CTRL_REL_def

lemmas kbd_defs = kbd_handler_def kbd_switch_def regular_character_def kbd_put_def
  decode_def table_at_def tty_putchar_def kbd_consts











lemma to_int_small: "n < 2 ^ 31 \<Longrightarrow> to_int n = int n"
  unfolding to_int_def
  by (simp add: signed_of_nat signed_take_bit_int_eq_self)

lemma drain_loop_eq:
  "i \<le> kbd_buf_i s \<Longrightarrow> kbd_buf_i s \<le> KBD_BUF_SIZE \<Longrightarrow>
   drain_loop i buf s =
     Inr (kbd_buf_i s,
          (\<lambda>k. if i \<le> k \<and> k < kbd_buf_i s then kbd_buf s k else buf k),
          s\<lparr>kbd_buf := (\<lambda>k. if i \<le> k \<and> k < kbd_buf_i s then NUL else kbd_buf s k)\<rparr>)"
proof (induction i buf s rule: drain_loop.induct)
  case (1 i buf s)
  show ?case
  proof (cases "i < kbd_buf_i s")
    case True
    with "1.prems" have b: "i < KBD_BUF_SIZE" by simp
    have "drain_loop i buf s
        = drain_loop (Suc i) (buf(i := kbd_buf s i)) (s\<lparr>kbd_buf := (kbd_buf s)(i := NUL)\<rparr>)"
      using True b by (subst drain_loop.simps) simp
    also have "\<dots> = Inr (kbd_buf_i s,
          (\<lambda>k. if Suc i \<le> k \<and> k < kbd_buf_i s
               then kbd_buf (s\<lparr>kbd_buf := (kbd_buf s)(i := NUL)\<rparr>) k
               else (buf(i := kbd_buf s i)) k),
          s\<lparr>kbd_buf := (kbd_buf s)(i := NUL)\<rparr>
           \<lparr>kbd_buf := (\<lambda>k. if Suc i \<le> k \<and> k < kbd_buf_i s then NUL
                   else kbd_buf (s\<lparr>kbd_buf := (kbd_buf s)(i := NUL)\<rparr>) k)\<rparr>)"
      using "1.IH" [OF True] True b "1.prems" by (simp add: fun_upd_def)
    also have "(\<lambda>k. if Suc i \<le> k \<and> k < kbd_buf_i s
               then kbd_buf (s\<lparr>kbd_buf := (kbd_buf s)(i := NUL)\<rparr>) k
               else (buf(i := kbd_buf s i)) k)
         = (\<lambda>k. if i \<le> k \<and> k < kbd_buf_i s then kbd_buf s k else buf k)"
      using True by (auto simp: fun_eq_iff)
    also have "(\<lambda>k. if Suc i \<le> k \<and> k < kbd_buf_i s then NUL
                   else kbd_buf (s\<lparr>kbd_buf := (kbd_buf s)(i := NUL)\<rparr>) k)
         = (\<lambda>k. if i \<le> k \<and> k < kbd_buf_i s then NUL else kbd_buf s k)"
      using True by (auto simp: fun_eq_iff)
    finally show ?thesis by simp
  next
    case False
    with "1.prems" have e: "i = kbd_buf_i s" by simp
    have n: "\<And>k. (kbd_buf_i s \<le> k \<and> k < kbd_buf_i s) = False" by auto
    show ?thesis
      by (subst drain_loop.simps) (simp add: e n)
  qed
qed

text \<open>
  C4, as the code has it. In canonical mode a backspace decoded while \<open>kbd_buf\<close> is empty
  is not dropped: the \<open>break\<close> of the backspace case leaves the \<open>switch\<close> and runs into
  \<open>regular_character\<close>, which stores the byte 0x08 in \<open>kbd_buf[0]\<close> and sets
  \<open>kbd_buf_i\<close> to 1. Here at the boot state with \<open>ICANON\<close> set and scancode 0x0e.
\<close>

theorem backspace_on_empty_raw_buf_is_stored:
  "kbd_handler 0x0e (kbd_init True False) =
     Inr ((kbd_init True False)\<lparr>kbd_buf_i := 1,
            kbd_buf := (kbd_buf (kbd_init True False))(0 := BS)\<rparr>)"
  by (simp add: kbd_defs kbd_init_def ascii_nomod_def KBD_BUF_SIZE_def)




text \<open>
  C6. In non-canonical mode, for every \<open>count\<close> and every state with
  \<open>0 < kbd_buf_i \<le> KBD_BUF_SIZE\<close>, \<open>kbd_read\<close> copies the \<open>kbd_buf_i\<close> bytes of
  \<open>kbd_buf\<close> to the caller's buffer, zeroes each of them in \<open>kbd_buf\<close>, resets
  \<open>kbd_buf_i\<close> to 0 and returns the number of bytes drained; \<open>count\<close> plays no part.
\<close>

theorem kbd_read_noncanonical_drains:
  assumes "\<not> icanon s" and "0 < kbd_buf_i s" and "kbd_buf_i s \<le> KBD_BUF_SIZE"
  shows "kbd_read buf count s =
     Inr (int (kbd_buf_i s),
          (\<lambda>k. if k < kbd_buf_i s then kbd_buf s k else buf k),
          s\<lparr>kbd_buf := (\<lambda>k. if k < kbd_buf_i s then NUL else kbd_buf s k), kbd_buf_i := 0\<rparr>)"
proof -
  have "kbd_buf_i s < 2 ^ 31" using assms(3) by (simp add: KBD_BUF_SIZE_def)
  then have "to_int (kbd_buf_i s) = int (kbd_buf_i s)" by (rule to_int_small)
  then show ?thesis
    using assms by (simp add: kbd_read_def drain_loop_eq)
qed

theorem kbd_read_noncanonical_drains_witness:
  "\<not> icanon ((kbd_init False False)\<lparr>kbd_buf_i := 2,
                kbd_buf := (kbd_buf (kbd_init False False))(0 := CHR ''a'', 1 := CHR ''b'')\<rparr>)
   \<and> 0 < kbd_buf_i ((kbd_init False False)\<lparr>kbd_buf_i := 2,
                kbd_buf := (kbd_buf (kbd_init False False))(0 := CHR ''a'', 1 := CHR ''b'')\<rparr>)
   \<and> kbd_buf_i ((kbd_init False False)\<lparr>kbd_buf_i := 2,
                kbd_buf := (kbd_buf (kbd_init False False))(0 := CHR ''a'', 1 := CHR ''b'')\<rparr>)
       \<le> KBD_BUF_SIZE
   \<and> (\<exists>buf1 s1. kbd_read (kbd_buf (kbd_init False False)) 1
          ((kbd_init False False)\<lparr>kbd_buf_i := 2,
                kbd_buf := (kbd_buf (kbd_init False False))(0 := CHR ''a'', 1 := CHR ''b'')\<rparr>)
          = Inr (2, buf1, s1)
        \<and> map buf1 [0..<3] = ''ab'' @ [NUL] \<and> kbd_buf_i s1 = 0
        \<and> map (kbd_buf s1) [0..<2] = [NUL, NUL])"
  using kbd_read_noncanonical_drains
    [of "(kbd_init False False)\<lparr>kbd_buf_i := 2,
                kbd_buf := (kbd_buf (kbd_init False False))(0 := CHR ''a'', 1 := CHR ''b'')\<rparr>"
        "kbd_buf (kbd_init False False)" 1]
  by (simp add: kbd_init_def KBD_BUF_SIZE_def upt_rec)

section \<open>Mountpoint resolver: proofs\<close>

lemmas resolver_defs = vfs_get_mountpoint_def spinlock_acquire_def spinlock_release_def
  kstrlen_def kstrncmp_def kstrcmp_def peek_def SIZE_MAX_def

lemma Some_in_records: "Some m \<in> set xs \<longleftrightarrow> m \<in> set (records xs)"
  by (force simp: records_def image_iff)

lemma kstrncmp_prefix:
  assumes "cstring t"
  shows "kstrncmp path t (length t) = 0 \<longleftrightarrow> take (length t) path = t"
proof
  assume "kstrncmp path t (length t) = 0"
  then have e: "take (length t) (path @ [NUL]) = t"
    by (simp add: kstrncmp_def split: if_splits)
  show "take (length t) path = t"
  proof (cases "length t \<le> length path")
    case True
    with e show ?thesis by simp
  next
    case False
    then have "take (length t) (path @ [NUL]) = path @ [NUL]" by simp
    with e have "NUL \<in> set t" by (metis in_set_conv_decomp)
    with assms show ?thesis by (simp add: cstring_def)
  qed
next
  assume a: "take (length t) path = t"
  then have "length (take (length t) path) = length t" by simp
  then have "length t \<le> length path" by simp
  with a show "kstrncmp path t (length t) = 0"
    by (simp add: kstrncmp_def)
qed

lemma scan_ok_valid: "cstring (name m) \<Longrightarrow> scan_ok path m \<longleftrightarrow> valid_prefix (name m) path"
  unfolding scan_ok_def valid_prefix_def kstrlen_def
  by (auto simp: kstrncmp_prefix kstrcmp_def)

lemma mnt_scan_result:
  "mnt_scan path i xs (g, gs) = (g', gs') \<Longrightarrow>
     gs \<le> gs' \<and> (\<forall>m. Some m \<in> set xs \<and> scan_ok path m \<longrightarrow> length (name m) \<le> gs') \<and>
     ((g', gs') = (g, gs) \<or>
      (\<exists>k m. k < length xs \<and> g' = i + k \<and> xs ! k = Some m \<and> scan_ok path m
             \<and> length (name m) = gs' \<and> gs < gs'))"
proof (induction xs arbitrary: i g gs)
  case Nil
  then show ?case by simp
next
  case (Cons x xs)
  show ?case
  proof (cases x)
    case None
    with Cons.prems have r: "mnt_scan path (Suc i) xs (g, gs) = (g', gs')" by simp
    from Cons.IH [OF r] show ?thesis using None
      by (elim conjE disjE exE) (auto intro: exI [of _ "Suc _"])
  next
    case (Some m)
    show ?thesis
    proof (cases "scan_ok path m \<and> gs < length (name m)")
      case True
      with Cons.prems Some have r: "mnt_scan path (Suc i) xs (i, length (name m)) = (g', gs')"
        by (simp add: scan_ok_def kstrlen_def Let_def)
      from Cons.IH [OF r] have le: "length (name m) \<le> gs'"
        and al: "\<forall>m'. Some m' \<in> set xs \<and> scan_ok path m' \<longrightarrow> length (name m') \<le> gs'"
        and d: "(g', gs') = (i, length (name m)) \<or>
            (\<exists>k m'. k < length xs \<and> g' = Suc i + k \<and> xs ! k = Some m' \<and> scan_ok path m'
                 \<and> length (name m') = gs' \<and> length (name m) < gs')"
        by auto
      from d have "\<exists>k m'. k < length (x # xs) \<and> g' = i + k \<and> (x # xs) ! k = Some m' \<and> scan_ok path m'
             \<and> length (name m') = gs' \<and> gs < gs'"
      proof
        assume "(g', gs') = (i, length (name m))"
        then show ?thesis using True Some by (intro exI [of _ 0] exI [of _ m]) simp
      next
        assume "\<exists>k m'. k < length xs \<and> g' = Suc i + k \<and> xs ! k = Some m' \<and> scan_ok path m'
                 \<and> length (name m') = gs' \<and> length (name m) < gs'"
        then obtain k m' where "k < length xs" "g' = Suc i + k" "xs ! k = Some m'" "scan_ok path m'"
          "length (name m') = gs'" "length (name m) < gs'" by blast
        then show ?thesis using True by (intro exI [of _ "Suc k"] exI [of _ m']) simp
      qed
      moreover have "gs \<le> gs'" using True le by simp
      moreover have "\<forall>m'. Some m' \<in> set (x # xs) \<and> scan_ok path m' \<longrightarrow> length (name m') \<le> gs'"
        using al le Some by auto
      ultimately show ?thesis by blast
    next
      case False
      with Cons.prems Some have r: "mnt_scan path (Suc i) xs (g, gs) = (g', gs')"
        by (auto simp: scan_ok_def kstrlen_def Let_def)
      from Cons.IH [OF r] have le: "gs \<le> gs'"
        and al: "\<forall>m'. Some m' \<in> set xs \<and> scan_ok path m' \<longrightarrow> length (name m') \<le> gs'"
        and d: "(g', gs') = (g, gs) \<or>
            (\<exists>k m'. k < length xs \<and> g' = Suc i + k \<and> xs ! k = Some m' \<and> scan_ok path m'
                 \<and> length (name m') = gs' \<and> gs < gs')"
        by auto
      from d have "(g', gs') = (g, gs) \<or> (\<exists>k m'. k < length (x # xs) \<and> g' = i + k \<and> (x # xs) ! k = Some m' \<and> scan_ok path m'
             \<and> length (name m') = gs' \<and> gs < gs')"
      proof
        assume "(g', gs') = (g, gs)" then show ?thesis by simp
      next
        assume "\<exists>k m'. k < length xs \<and> g' = Suc i + k \<and> xs ! k = Some m' \<and> scan_ok path m'
                 \<and> length (name m') = gs' \<and> gs < gs'"
        then obtain k m' where "k < length xs" "g' = Suc i + k" "xs ! k = Some m'" "scan_ok path m'"
          "length (name m') = gs'" "gs < gs'" by blast
        then have "\<exists>k m'. k < length (x # xs) \<and> g' = i + k \<and> (x # xs) ! k = Some m' \<and> scan_ok path m'
             \<and> length (name m') = gs' \<and> gs < gs'"
          by (intro exI [of _ "Suc k"] exI [of _ m']) simp
        then show ?thesis ..
      qed
      moreover have "\<forall>m'. Some m' \<in> set (x # xs) \<and> scan_ok path m' \<longrightarrow> length (name m') \<le> gs'"
        using al le Some False by auto
      ultimately show ?thesis using le by blast
    qed
  qed
qed

lemma records_name_inj:
  assumes "distinct (map name (records xs))" and "Some a \<in> set xs" and "Some b \<in> set xs"
    and "name a = name b"
  shows "a = b"
proof -
  have "a \<in> set (records xs)" "b \<in> set (records xs)"
    using assms(2,3) by (simp_all add: Some_in_records)
  then show ?thesis using assms(1,4) by (meson distinct_map inj_onD)
qed

lemma resolver_picks_longest:
  assumes dist: "distinct (map name (records mnts))"
    and len: "length mnts \<le> SIZE_MAX"
    and cs: "\<forall>m' \<in> set (records mnts). cstring (name m')"
    and m: "Some m \<in> set mnts" "name m \<noteq> []" "valid_prefix (name m) path"
    and mx: "\<forall>m' \<in> set (records mnts). name m' \<noteq> [] \<and> valid_prefix (name m') path
               \<longrightarrow> length (name m') \<le> length (name m)"
  shows "vfs_get_mountpoint Unlocked (Some mnts) path =
           Inr (Some m,
                Some (let l = (if 1 < length (name m) then drop (length (name m)) path else path)
                      in if peek l 0 = NUL then ''/'' else l),
                Unlocked)"
proof -
  obtain g gs where r: "mnt_scan path 0 mnts (SIZE_MAX, 0) = (g, gs)" by fastforce
  note s = mnt_scan_result [OF r]
  have okm: "scan_ok path m" using m cs by (simp add: scan_ok_valid Some_in_records)
  with s m have "length (name m) \<le> gs" by blast
  with m(2) have "0 < gs" by (cases "name m") auto
  with s obtain k m' where k: "k < length mnts" "g = k" "mnts ! k = Some m'" "scan_ok path m'"
    "length (name m') = gs" by auto
  have in': "Some m' \<in> set mnts" using k by (metis nth_mem)
  then have "cstring (name m')" using cs by (simp add: Some_in_records)
  with k have v': "valid_prefix (name m') path" by (simp add: scan_ok_valid)
  have "name m' \<noteq> []" using k \<open>0 < gs\<close> by auto
  with v' mx in' have "length (name m') \<le> length (name m)" by (simp add: Some_in_records)
  with \<open>length (name m) \<le> gs\<close> k have eq: "length (name m') = length (name m)" by simp
  have "name m' = name m"
    using v' m(3) eq by (metis valid_prefix_def)
  with dist in' m(1) have "m' = m" by (rule records_name_inj)
  have "g \<noteq> SIZE_MAX" using k len by simp
  then show ?thesis
    using r k \<open>m' = m\<close> eq
    by (simp add: vfs_get_mountpoint_def spinlock_acquire_def spinlock_release_def Let_def)
qed

text \<open>
  C1, amended. For every path and every dump of the mount table with no duplicate
  \<open>name\<close> (at most \<open>SIZE_MAX\<close> slots, every name a C string), if \<open>m\<close> is a record whose
  non-empty \<open>name\<close> is a valid prefix of the path and no record with a non-empty valid
  prefix has a longer name, the resolver returns \<open>m\<close>, sets \<open>*local_path\<close> to the rest of
  the path (\<open>/\<close> when nothing is left; the whole path when the name has one character)
  and releases the lock. With mounts \<open>/\<close>, \<open>/usr\<close>, \<open>/usr/local\<close>: \<open>/usr/bin/ls\<close> resolves
  to the \<open>/usr\<close> record with local path \<open>/bin/ls\<close>, and \<open>/usr\<close> to the same record with
  local path \<open>/\<close>.
\<close>

theorem mountpoint_longest_prefix:
  "(distinct (map name (records mnts)) \<and> length mnts \<le> SIZE_MAX
      \<and> (\<forall>m' \<in> set (records mnts). cstring (name m'))
      \<and> Some m \<in> set mnts \<and> name m \<noteq> [] \<and> valid_prefix (name m) path
      \<and> (\<forall>m' \<in> set (records mnts). name m' \<noteq> [] \<and> valid_prefix (name m') path
               \<longrightarrow> length (name m') \<le> length (name m))
    \<longrightarrow> vfs_get_mountpoint Unlocked (Some mnts) path =
           Inr (Some m,
                Some (let l = (if 1 < length (name m) then drop (length (name m)) path else path)
                      in if peek l 0 = NUL then ''/'' else l),
                Unlocked))
   \<and> vfs_get_mountpoint Unlocked
        (Some [Some \<lparr>name = ''/'', fs = fsA, magic = ma\<rparr>,
               Some \<lparr>name = ''/usr'', fs = fsB, magic = mb\<rparr>,
               Some \<lparr>name = ''/usr/local'', fs = fsC, magic = mc\<rparr>]) ''/usr/bin/ls''
       = Inr (Some \<lparr>name = ''/usr'', fs = fsB, magic = mb\<rparr>, Some ''/bin/ls'', Unlocked)
   \<and> vfs_get_mountpoint Unlocked
        (Some [Some \<lparr>name = ''/'', fs = fsA, magic = ma\<rparr>,
               Some \<lparr>name = ''/usr'', fs = fsB, magic = mb\<rparr>,
               Some \<lparr>name = ''/usr/local'', fs = fsC, magic = mc\<rparr>]) ''/usr''
       = Inr (Some \<lparr>name = ''/usr'', fs = fsB, magic = mb\<rparr>, Some ''/'', Unlocked)"
proof (intro conjI impI)
  assume "distinct (map name (records mnts)) \<and> length mnts \<le> SIZE_MAX
      \<and> (\<forall>m' \<in> set (records mnts). cstring (name m'))
      \<and> Some m \<in> set mnts \<and> name m \<noteq> [] \<and> valid_prefix (name m) path
      \<and> (\<forall>m' \<in> set (records mnts). name m' \<noteq> [] \<and> valid_prefix (name m') path
               \<longrightarrow> length (name m') \<le> length (name m))"
  then show "vfs_get_mountpoint Unlocked (Some mnts) path =
           Inr (Some m,
                Some (let l = (if 1 < length (name m) then drop (length (name m)) path else path)
                      in if peek l 0 = NUL then ''/'' else l),
                Unlocked)"
    by (intro resolver_picks_longest) simp_all
qed (simp_all add: resolver_defs)

theorem mountpoint_longest_prefix_witness:
  "distinct (map name (records
       [Some \<lparr>name = ''/'', fs = 0::nat, magic = 10\<rparr>, None,
        Some \<lparr>name = ''/usr/local'', fs = 2, magic = 12\<rparr>,
        Some \<lparr>name = ''/usr'', fs = 1, magic = 11\<rparr>]))
   \<and> length [Some \<lparr>name = ''/'', fs = 0::nat, magic = 10\<rparr>, None,
        Some \<lparr>name = ''/usr/local'', fs = 2, magic = 12\<rparr>,
        Some \<lparr>name = ''/usr'', fs = 1, magic = 11\<rparr>] \<le> SIZE_MAX
   \<and> cstring ''/'' \<and> cstring ''/usr/local'' \<and> cstring ''/usr''
   \<and> valid_prefix ''/'' ''/usr/bin/ls'' \<and> valid_prefix ''/usr'' ''/usr/bin/ls''
   \<and> \<not> valid_prefix ''/usr/local'' ''/usr/bin/ls''
   \<and> vfs_get_mountpoint Unlocked
       (Some [Some \<lparr>name = ''/'', fs = 0::nat, magic = 10\<rparr>, None,
        Some \<lparr>name = ''/usr/local'', fs = 2, magic = 12\<rparr>,
        Some \<lparr>name = ''/usr'', fs = 1, magic = 11\<rparr>]) ''/usr/bin/ls''
      = Inr (Some \<lparr>name = ''/usr'', fs = 1, magic = 11\<rparr>, Some ''/bin/ls'', Unlocked)"
  using mountpoint_longest_prefix
    [THEN conjunct1, of "[Some \<lparr>name = ''/'', fs = 0::nat, magic = 10\<rparr>, None,
        Some \<lparr>name = ''/usr/local'', fs = 2, magic = 12\<rparr>,
        Some \<lparr>name = ''/usr'', fs = 1, magic = 11\<rparr>]"
        "\<lparr>name = ''/usr'', fs = 1, magic = 11\<rparr>" "''/usr/bin/ls''"]
  by (simp add: records_def valid_prefix_def cstring_def peek_def SIZE_MAX_def)

text \<open>
  C1 as stated fails for a record with an empty \<open>name\<close>: the empty string is a prefix of
  the absolute path \<open>/etc\<close> and the next character is \<open>/\<close>, so the only record of this
  table is the longest valid prefix; the loop never selects it (\<open>len > guess_size\<close> with
  \<open>guess_size\<close> starting at 0) and the resolver does not return it.
\<close>

theorem mountpoint_empty_target_counterexample:
  "distinct (map name (records [Some \<lparr>name = [], fs = 0::nat, magic = 0\<rparr>]))
   \<and> is_absolute ''/etc''
   \<and> valid_prefix (name \<lparr>name = [], fs = 0::nat, magic = 0\<rparr>) ''/etc''
   \<and> vfs_get_mountpoint Unlocked (Some [Some \<lparr>name = [], fs = 0::nat, magic = 0\<rparr>]) ''/etc''
       = Inl OutOfBounds"
  by (simp add: resolver_defs records_def valid_prefix_def is_absolute_def)

text \<open>
  C9, as the code has it. When \<open>ht_dump\<close> hands back the null pointer the resolver returns
  null from inside the critical section: \<open>mountpoints_lock\<close>, free at the call, is still
  held at the return.
\<close>

theorem mountpoint_lock_held_on_null_dump:
  "vfs_get_mountpoint Unlocked None path = Inr (None, None, Locked)"
  by (simp add: vfs_get_mountpoint_def spinlock_acquire_def)

text \<open>
  C10, as the code has it. With one mount \<open>/usr\<close> and the path \<open>/etc\<close> no record matches,
  \<open>guess\<close> is still \<open>(size_t)-1\<close> when \<open>mnts[guess]\<close> is read, and that read, which
  comes before the \<open>guess != -1\<close> test, is outside the dumped array of one slot.
\<close>

theorem mountpoint_no_match_reads_out_of_bounds:
  "mnt_scan ''/etc'' 0 [Some \<lparr>name = ''/usr'', fs = 0::nat, magic = 0\<rparr>] (SIZE_MAX, 0)
     = (SIZE_MAX, 0)
   \<and> \<not> SIZE_MAX < length [Some \<lparr>name = ''/usr'', fs = 0::nat, magic = 0\<rparr>]
   \<and> vfs_get_mountpoint Unlocked (Some [Some \<lparr>name = ''/usr'', fs = 0::nat, magic = 0\<rparr>]) ''/etc''
       = Inl OutOfBounds"
  by (simp add: resolver_defs)

section \<open>Drivers, close and open: proofs\<close>

lemmas fs_slot_defs = FS_MOUNT_def FS_OPEN_def FS_CLOSE_def FS_DUP_def FS_READ_def
  FS_WRITE_def FS_LSEEK_def FS_FSTAT_def FS_READDIR_def FS_SYNC_def

lemmas sample_defs = sample_open_def sample_close_def failing_close_def sample_fs_def
  sample_env_def sample_fd_create_def

lemmas dynarray_defs = slot_at_def dynarray_getelem_def dynarray_unref_def
  dynarray_remove_def dynarray_add_def

lemma length_patch_slots: "length (patch_slots E p) = length p"
  by (induction E p rule: patch_slots.induct) simp_all

lemma patch_slots_None:
  "k < length p \<Longrightarrow> p ! k = None \<Longrightarrow> patch_slots E p ! k = Some (\<lambda>args. vfs_call_invalid E)"
proof (induction E p arbitrary: k rule: patch_slots.induct)
  case (1 E)
  then show ?case by simp
next
  case (2 E p)
  then show ?case by (cases k) simp_all
next
  case (3 E g p)
  then show ?case by (cases k) simp_all
qed

lemma patch_slots_Some:
  "k < length p \<Longrightarrow> p ! k = Some g \<Longrightarrow> patch_slots E p ! k = Some g"
proof (induction E p arbitrary: k rule: patch_slots.induct)
  case (1 E)
  then show ?case by simp
next
  case (2 E p)
  then show ?case by (cases k) simp_all
next
  case (3 E g' p)
  then show ?case by (cases k) simp_all
qed

lemma install_fs_unset_slot:
  assumes "k < length (fs_ops filesystem)" and "fs_ops filesystem ! k = None"
  shows "\<exists>r patched tbl.
           vfs_install_fs ENOSYS filesystem filesystems = (r, patched, tbl)
           \<and> fs_call patched k args e =
               Inr (- 1, e\<lparr>klog := klog e
                 @ [''vfs: Unimplemented filesystem call occurred, returning ENOSYS!''],
                 errno := ENOSYS\<rparr>)
           \<and> ((r = 0 \<and> tbl (fs_name filesystem) = Some patched)
                \<or> (r = - 1 \<and> tbl = filesystems))"
proof -
  let ?p = "filesystem\<lparr>fs_ops := patch_slots ENOSYS (fs_ops filesystem)\<rparr>"
  have c: "fs_call ?p k args e =
               Inr (- 1, e\<lparr>klog := klog e
                 @ [''vfs: Unimplemented filesystem call occurred, returning ENOSYS!''],
                 errno := ENOSYS\<rparr>)"
    using assms
    by (simp add: fs_call_def length_patch_slots patch_slots_None vfs_call_invalid_def)
  show ?thesis
  proof (cases "filesystems (fs_name filesystem)")
    case None
    then have "vfs_install_fs ENOSYS filesystem filesystems
                 = (0, ?p, filesystems(fs_name filesystem \<mapsto> ?p))"
      by (simp add: vfs_install_fs_def ht_add_def Let_def)
    with c show ?thesis by simp
  next
    case (Some old)
    then have "vfs_install_fs ENOSYS filesystem filesystems = (- 1, ?p, filesystems)"
      by (simp add: vfs_install_fs_def ht_add_def Let_def)
    with c show ?thesis by simp
  qed
qed

lemma install_fs_set_slot:
  assumes "k < length (fs_ops filesystem)" and "fs_ops filesystem ! k = Some g"
  shows "fs_call (fst (snd (vfs_install_fs ENOSYS filesystem filesystems))) k args e = Inr (g args e)"
  using assms
  by (auto simp: vfs_install_fs_def ht_add_def fs_call_def length_patch_slots patch_slots_Some
        Let_def split: option.splits)

lemma vfs_close_removes:
  assumes "slot_at handles fd = Some s"
    and "FS_CLOSE < length (fs_ops (h_fs (elem s)))"
    and "fs_ops (h_fs (elem s)) ! FS_CLOSE = Some g"
  shows "vfs_close fd handles e =
           Inr (if fst (g [AInt (intern_fd (elem s))] e) \<noteq> 0 then - 1 else 0,
                handles\<lparr>slots := (slots handles)[nat fd := None]\<rparr>,
                snd (g [AInt (intern_fd (elem s))] e))"
proof -
  from assms(1) have b: "0 \<le> fd" "nat fd < length (slots handles)"
    and v: "slots handles ! nat fd = Some s"
    by (auto simp: slot_at_def split: if_splits)
  show ?thesis
    using b v assms(2,3)
    by (simp add: vfs_close_def dynarray_defs fs_call_def Let_def split: prod.splits)
qed

lemma open_no_rollback:
  assumes "vfs_get_mountpoint (mountpoints_lock st) (mountpoints st) path
             = Inr (Some mp, Some loc_path, lk)"
    and "FS_OPEN < length (fs_ops (fs mp))"
    and "fs_ops (fs mp) ! FS_OPEN = Some g"
    and "g [AStr loc_path, AInt mode, AInt (magic mp)] (env st) = (ifd, e1)"
    and "ifd \<noteq> - 1"
    and "fst (dynarray_add (vfs_handles st) \<lparr>h_fs = fs mp, intern_fd = ifd\<rparr>) = - 1"
  shows "open fd_create path mode st =
           Inr (fst (fd_create \<lparr>fd_intern_fd = - 1, fd_handler = Vfs_functions\<rparr> (fd_table st)),
                st\<lparr>mountpoints_lock := lk, vfs_handles := vfs_handles st, env := e1,
                   fd_table := snd (fd_create \<lparr>fd_intern_fd = - 1, fd_handler = Vfs_functions\<rparr>
                                      (fd_table st))\<rparr>)"
proof -
  have "dynarray_add (vfs_handles st) \<lparr>h_fs = fs mp, intern_fd = ifd\<rparr> = (- 1, vfs_handles st)"
    using assms(6) by (auto simp: dynarray_add_def Let_def split: if_splits)
  then show ?thesis
    using assms(1-5)
    by (simp add: open_def fs_call_def split: prod.splits)
qed

text \<open>
  C7. After \<open>vfs_install_fs\<close>, every operation slot of the driver that was unset at
  registration holds the sentinel: calling it with any arguments returns -1, sets
  \<open>errno\<close> to \<open>ENOSYS\<close> and logs the warning. This holds of the driver's own struct and,
  when \<open>ht_add\<close> took it (return value 0), of the registered copy, which is the same
  struct. For the sample driver with only \<open>open\<close> and \<open>close\<close> set, each of the eight
  other operations returns -1 with \<open>errno = ENOSYS\<close>.
\<close>

theorem install_fs_sentinels:
  "(k < length (fs_ops filesystem) \<and> fs_ops filesystem ! k = None \<longrightarrow>
      (\<exists>r patched tbl.
           vfs_install_fs ENOSYS filesystem filesystems = (r, patched, tbl)
           \<and> fs_call patched k args e =
               Inr (- 1, e\<lparr>klog := klog e
                 @ [''vfs: Unimplemented filesystem call occurred, returning ENOSYS!''],
                 errno := ENOSYS\<rparr>)
           \<and> ((r = 0 \<and> tbl (fs_name filesystem) = Some patched)
                \<or> (r = - 1 \<and> tbl = filesystems))))
   \<and> map (\<lambda>op. fs_call (fst (snd (vfs_install_fs ENOSYS (sample_fs sample_close) Map.empty)))
                  op args (sample_env 0))
        [FS_MOUNT, FS_DUP, FS_READ, FS_WRITE, FS_LSEEK, FS_FSTAT, FS_READDIR, FS_SYNC]
       = replicate 8
           (Inr (- 1, \<lparr>errno = ENOSYS,
              klog = [''vfs: Unimplemented filesystem call occurred, returning ENOSYS!''],
              drv = 0\<rparr>))"
proof (intro conjI impI)
  assume "k < length (fs_ops filesystem) \<and> fs_ops filesystem ! k = None"
  then show "\<exists>r patched tbl.
           vfs_install_fs ENOSYS filesystem filesystems = (r, patched, tbl)
           \<and> fs_call patched k args e =
               Inr (- 1, e\<lparr>klog := klog e
                 @ [''vfs: Unimplemented filesystem call occurred, returning ENOSYS!''],
                 errno := ENOSYS\<rparr>)
           \<and> ((r = 0 \<and> tbl (fs_name filesystem) = Some patched)
                \<or> (r = - 1 \<and> tbl = filesystems))"
    using install_fs_unset_slot [of k filesystem ENOSYS filesystems args e] by simp
next
  show "map (\<lambda>op. fs_call (fst (snd (vfs_install_fs ENOSYS (sample_fs sample_close) Map.empty)))
                  op args (sample_env 0))
        [FS_MOUNT, FS_DUP, FS_READ, FS_WRITE, FS_LSEEK, FS_FSTAT, FS_READDIR, FS_SYNC]
       = replicate 8
           (Inr (- 1, \<lparr>errno = ENOSYS,
              klog = [''vfs: Unimplemented filesystem call occurred, returning ENOSYS!''],
              drv = 0\<rparr>))"
    by (simp add: vfs_install_fs_def ht_add_def fs_call_def vfs_call_invalid_def sample_defs
          fs_slot_defs Let_def eval_nat_numeral)
qed

theorem install_fs_sentinels_witness:
  "FS_READ < length (fs_ops (sample_fs sample_close))
   \<and> fs_ops (sample_fs sample_close) ! FS_READ = None
   \<and> fst (vfs_install_fs 38 (sample_fs sample_close) Map.empty) = 0
   \<and> fs_call (fst (snd (vfs_install_fs 38 (sample_fs sample_close) Map.empty)))
        FS_READ [AInt 5, AInt 0, AInt 16] (sample_env 0)
       = Inr (- 1, \<lparr>errno = 38,
              klog = [''vfs: Unimplemented filesystem call occurred, returning ENOSYS!''],
              drv = 0\<rparr>)"
  using install_fs_sentinels
    [THEN conjunct1, of FS_READ "sample_fs sample_close" 38 Map.empty
       "[AInt 5, AInt 0, AInt 16]" "sample_env 0"]
  by (auto simp: vfs_install_fs_def ht_add_def Let_def sample_defs fs_slot_defs)

text \<open>
  C3, amended. For every open VFS handle \<open>fd\<close> whose driver has a \<open>close\<close>,
  \<open>vfs_close\<close> removes the handle-table entry before it calls the driver's \<open>close\<close>, and
  so whatever the driver returns: the entry is gone after the call, the driver's
  \<open>close\<close> has run once on the handle's internal fd, and the result is -1 if the driver
  returned non-zero and 0 otherwise.
\<close>

theorem close_removes_entry_before_driver_close:
  "slot_at handles fd = Some s \<and> FS_CLOSE < length (fs_ops (h_fs (elem s)))
     \<and> fs_ops (h_fs (elem s)) ! FS_CLOSE = Some g
   \<longrightarrow> vfs_close fd handles e =
           Inr (if fst (g [AInt (intern_fd (elem s))] e) \<noteq> 0 then - 1 else 0,
                handles\<lparr>slots := (slots handles)[nat fd := None]\<rparr>,
                snd (g [AInt (intern_fd (elem s))] e))
       \<and> slot_at (handles\<lparr>slots := (slots handles)[nat fd := None]\<rparr>) fd = None"
proof (intro impI conjI)
  assume a: "slot_at handles fd = Some s \<and> FS_CLOSE < length (fs_ops (h_fs (elem s)))
     \<and> fs_ops (h_fs (elem s)) ! FS_CLOSE = Some g"
  then show "vfs_close fd handles e =
           Inr (if fst (g [AInt (intern_fd (elem s))] e) \<noteq> 0 then - 1 else 0,
                handles\<lparr>slots := (slots handles)[nat fd := None]\<rparr>,
                snd (g [AInt (intern_fd (elem s))] e))"
    by (intro vfs_close_removes) simp_all
  from a show "slot_at (handles\<lparr>slots := (slots handles)[nat fd := None]\<rparr>) fd = None"
    by (auto simp: slot_at_def split: if_splits)
qed

theorem close_removes_entry_before_driver_close_witness:
  "slot_at \<lparr>slots = [Some \<lparr>refcount = 0,
                 elem = \<lparr>h_fs = sample_fs sample_close, intern_fd = 5\<rparr>\<rparr>], limit = 4\<rparr> 0
     = Some \<lparr>refcount = 0, elem = \<lparr>h_fs = sample_fs sample_close, intern_fd = 5\<rparr>\<rparr>
   \<and> FS_CLOSE < length (fs_ops (sample_fs sample_close))
   \<and> fs_ops (sample_fs sample_close) ! FS_CLOSE = Some sample_close
   \<and> vfs_close 0
       \<lparr>slots = [Some \<lparr>refcount = 0,
                 elem = \<lparr>h_fs = sample_fs sample_close, intern_fd = 5\<rparr>\<rparr>], limit = 4\<rparr>
       (sample_env 1)
      = Inr (0, \<lparr>slots = [None], limit = 4\<rparr>, sample_env 0)"
  using close_removes_entry_before_driver_close
    [of "\<lparr>slots = [Some \<lparr>refcount = 0,
                 elem = \<lparr>h_fs = sample_fs sample_close, intern_fd = 5\<rparr>\<rparr>], limit = 4\<rparr>"
        0 "\<lparr>refcount = 0, elem = \<lparr>h_fs = sample_fs sample_close, intern_fd = 5\<rparr>\<rparr>"
        sample_close "sample_env 1"]
  by (simp add: slot_at_def sample_defs fs_slot_defs)

text \<open>
  C3 as stated fails: the driver's \<open>close\<close> fails here (it returns -1 and changes
  nothing), \<open>vfs_close\<close> returns -1, and the entry at index 0, present before the call,
  is not retained.
\<close>

theorem close_failure_still_removes_entry:
  "slot_at \<lparr>slots = [Some \<lparr>refcount = 0,
                 elem = \<lparr>h_fs = sample_fs failing_close, intern_fd = 5\<rparr>\<rparr>], limit = 4\<rparr> 0
     = Some \<lparr>refcount = 0, elem = \<lparr>h_fs = sample_fs failing_close, intern_fd = 5\<rparr>\<rparr>
   \<and> vfs_close 0
       \<lparr>slots = [Some \<lparr>refcount = 0,
                 elem = \<lparr>h_fs = sample_fs failing_close, intern_fd = 5\<rparr>\<rparr>], limit = 4\<rparr>
       (sample_env 1)
      = Inr (- 1, \<lparr>slots = [None], limit = 4\<rparr>, sample_env 1)
   \<and> slot_at \<lparr>slots = [None :: nat vfs_handle_t dyn_slot option], limit = 4\<rparr> 0 = None"
  by (simp add: vfs_close_def dynarray_defs fs_call_def sample_defs fs_slot_defs)

text \<open>
  C8. The code departs from the claim. For every path and mode for which the mountpoint
  is found, the driver's \<open>open\<close> succeeds (its result \<open>ifd\<close> is not -1) and
  \<open>dynarray_add\<close> fails (returns -1), \<open>open\<close> never tests the result of
  \<open>dynarray_add\<close>: it hands \<open>fd_create\<close> a descriptor whose \<open>intern_fd\<close> is -1 and
  returns what \<open>fd_create\<close> returns, instead of -1; the drivers' side is left as the
  driver's \<open>open\<close> left it (\<open>e1\<close>), so the driver's \<open>close\<close> is not called on
  \<open>ifd\<close>, and the handle table is unchanged. On the sample input (one mount on
  \<open>/\<close>, a handle table that takes no entry, \<open>open\<close> of \<open>/x\<close> with mode 0) the driver hands out
  internal fd 5, \<open>open\<close> returns 0 and the driver still has its one fd open.
\<close>

theorem open_ignores_dynarray_add_failure:
  "vfs_get_mountpoint (mountpoints_lock st) (mountpoints st) path
       = Inr (Some mp, Some loc_path, lk)
     \<and> FS_OPEN < length (fs_ops (fs mp))
     \<and> fs_ops (fs mp) ! FS_OPEN = Some g
     \<and> g [AStr loc_path, AInt mode, AInt (magic mp)] (env st) = (ifd, e1)
     \<and> ifd \<noteq> - 1
     \<and> fst (dynarray_add (vfs_handles st) \<lparr>h_fs = fs mp, intern_fd = ifd\<rparr>) = - 1
   \<longrightarrow> open fd_create path mode st =
           Inr (fst (fd_create \<lparr>fd_intern_fd = - 1, fd_handler = Vfs_functions\<rparr> (fd_table st)),
                st\<lparr>mountpoints_lock := lk, vfs_handles := vfs_handles st, env := e1,
                   fd_table := snd (fd_create \<lparr>fd_intern_fd = - 1, fd_handler = Vfs_functions\<rparr>
                                      (fd_table st))\<rparr>)"
proof
  assume a: "vfs_get_mountpoint (mountpoints_lock st) (mountpoints st) path
       = Inr (Some mp, Some loc_path, lk)
     \<and> FS_OPEN < length (fs_ops (fs mp))
     \<and> fs_ops (fs mp) ! FS_OPEN = Some g
     \<and> g [AStr loc_path, AInt mode, AInt (magic mp)] (env st) = (ifd, e1)
     \<and> ifd \<noteq> - 1
     \<and> fst (dynarray_add (vfs_handles st) \<lparr>h_fs = fs mp, intern_fd = ifd\<rparr>) = - 1"
  have 1: "vfs_get_mountpoint (mountpoints_lock st) (mountpoints st) path
       = Inr (Some mp, Some loc_path, lk)" using a by blast
  have 2: "FS_OPEN < length (fs_ops (fs mp))" using a by blast
  have 3: "fs_ops (fs mp) ! FS_OPEN = Some g" using a by blast
  have 4: "g [AStr loc_path, AInt mode, AInt (magic mp)] (env st) = (ifd, e1)" using a by blast
  have 5: "ifd \<noteq> - 1" using a by blast
  have 6: "fst (dynarray_add (vfs_handles st) \<lparr>h_fs = fs mp, intern_fd = ifd\<rparr>) = - 1"
    using a by blast
  show "open fd_create path mode st =
           Inr (fst (fd_create \<lparr>fd_intern_fd = - 1, fd_handler = Vfs_functions\<rparr> (fd_table st)),
                st\<lparr>mountpoints_lock := lk, vfs_handles := vfs_handles st, env := e1,
                   fd_table := snd (fd_create \<lparr>fd_intern_fd = - 1, fd_handler = Vfs_functions\<rparr>
                                      (fd_table st))\<rparr>)"
    by (rule open_no_rollback [OF 1 2 3 4 5 6])
qed

theorem open_ignores_dynarray_add_failure_witness:
  "vfs_get_mountpoint Unlocked
       (Some [Some \<lparr>name = ''/'', fs = sample_fs sample_close, magic = 7\<rparr>]) ''/x''
     = Inr (Some \<lparr>name = ''/'', fs = sample_fs sample_close, magic = 7\<rparr>, Some ''/x'', Unlocked)
   \<and> FS_OPEN < length (fs_ops (sample_fs sample_close))
   \<and> fs_ops (sample_fs sample_close) ! FS_OPEN = Some sample_open
   \<and> sample_open [AStr ''/x'', AInt 0, AInt 7] (sample_env 0) = (5, sample_env 1)
   \<and> (5 :: int) \<noteq> - 1
   \<and> fst (dynarray_add \<lparr>slots = [], limit = 0\<rparr>
              \<lparr>h_fs = sample_fs sample_close, intern_fd = 5\<rparr>) = - 1
   \<and> open sample_fd_create ''/x'' 0
       \<lparr>mountpoints_lock = Unlocked,
        mountpoints = Some [Some \<lparr>name = ''/'', fs = sample_fs sample_close, magic = 7\<rparr>],
        vfs_handles = \<lparr>slots = [], limit = 0\<rparr>,
        env = sample_env 0,
        fd_table = []\<rparr>
      = Inr (0,
        \<lparr>mountpoints_lock = Unlocked,
         mountpoints = Some [Some \<lparr>name = ''/'', fs = sample_fs sample_close, magic = 7\<rparr>],
         vfs_handles = \<lparr>slots = [], limit = 0\<rparr>,
         env = sample_env 1,
         fd_table = [\<lparr>fd_intern_fd = - 1, fd_handler = Vfs_functions\<rparr>]\<rparr>)"
  using open_ignores_dynarray_add_failure
    [of "\<lparr>mountpoints_lock = Unlocked,
        mountpoints = Some [Some \<lparr>name = ''/'', fs = sample_fs sample_close, magic = 7\<rparr>],
        vfs_handles = \<lparr>slots = [], limit = 0\<rparr>,
        env = sample_env 0,
        fd_table = []\<rparr>"
       "''/x''" "\<lparr>name = ''/'', fs = sample_fs sample_close, magic = 7\<rparr>" "''/x''" Unlocked
       sample_open 0 5 "sample_env 1" sample_fd_create]
  by (simp add: resolver_defs dynarray_defs sample_defs fs_slot_defs)

section \<open>Path normalizer: proofs\<close>

subsection \<open>Canonical strings and the four properties\<close>

lemma join_segs_Nil [simp]: "join_segs [] = []"
  by (simp add: join_segs_def)

lemma join_segs_Cons [simp]: "join_segs (g # gs) = SLASH # g @ join_segs gs"
  by (simp add: join_segs_def)

lemma join_segs_append [simp]: "join_segs (gs @ hs) = join_segs gs @ join_segs hs"
  by (simp add: join_segs_def)

lemma join_segs_eq_Nil [simp]: "join_segs gs = [] \<longleftrightarrow> gs = []"
  by (cases gs) simp_all

lemma nds_Cons: "c \<noteq> SLASH \<Longrightarrow> no_double_slash (c # t) = no_double_slash t"
  by (cases t) simp_all

lemma nds_append: "SLASH \<notin> set g \<Longrightarrow> no_double_slash (g @ t) = no_double_slash t"
  by (induction g) (auto simp: nds_Cons)

lemma nds_join: "list_all good_seg gs \<Longrightarrow> no_double_slash (join_segs gs)"
proof (induction gs)
  case Nil
  then show ?case by simp
next
  case (Cons g gs)
  then obtain c g' where g: "g = c # g'" "c \<noteq> SLASH" "SLASH \<notin> set g'"
    by (cases g) (auto simp: good_seg_def)
  have "no_double_slash (SLASH # c # g' @ join_segs gs) = no_double_slash (c # g' @ join_segs gs)"
    using g by simp
  also have "\<dots> = no_double_slash ((c # g') @ join_segs gs)" by simp
  also have "\<dots> = no_double_slash (join_segs gs)"
    using g by (intro nds_append) simp
  finally show ?case using Cons g by simp
qed

lemma split_slash_not_Nil [simp]: "split_slash t \<noteq> []"
  by (induction t) (auto split: list.splits)

lemma split_slash_plain: "SLASH \<notin> set g \<Longrightarrow> split_slash g = [g]"
  by (induction g) auto

lemma split_slash_append:
  "SLASH \<notin> set g \<Longrightarrow> split_slash (g @ SLASH # t) = g # split_slash t"
  by (induction g) auto

lemma split_slash_join:
  "list_all good_seg gs \<Longrightarrow> gs \<noteq> [] \<Longrightarrow> split_slash (join_segs gs) = [] # gs"
proof (induction gs)
  case Nil
  then show ?case by simp
next
  case (Cons g gs)
  then have sf: "SLASH \<notin> set g" by (simp add: good_seg_def)
  show ?case
  proof (cases gs)
    case Nil
    then show ?thesis using sf by (simp add: split_slash_plain)
  next
    case (Cons h hs)
    with Cons.IH Cons.prems have ih: "split_slash (join_segs gs) = [] # gs" by simp
    from Cons have j: "join_segs gs = SLASH # h @ join_segs hs" by simp
    from ih j have "split_slash (h @ join_segs hs) = gs" by simp
    then have "split_slash (g @ join_segs gs) = g # gs"
      unfolding j using sf by (simp add: split_slash_append)
    then show ?thesis by simp
  qed
qed

lemma last_join:
  "gs \<noteq> [] \<Longrightarrow> last gs \<noteq> [] \<Longrightarrow> last (join_segs gs) = last (last gs)"
proof (induction gs)
  case Nil
  then show ?case by simp
next
  case (Cons g gs)
  then show ?case by (cases gs) auto
qed

lemma canon_root: "canon ''/''"
  unfolding canon_def by (rule exI [of _ "[]"]) simp

lemma canon_join: "list_all good_seg gs \<Longrightarrow> gs \<noteq> [] \<Longrightarrow> canon (join_segs gs)"
  unfolding canon_def by (rule exI [of _ gs]) simp

lemma canon_cases:
  assumes "canon s"
  obtains "s = ''/''" | gs where "list_all good_seg gs" "gs \<noteq> []" "s = join_segs gs"
  using assms unfolding canon_def by (auto split: if_splits)

lemma cstring_join: "list_all good_seg gs \<Longrightarrow> cstring (join_segs gs)"
  by (induction gs) (auto simp: cstring_def good_seg_def)

lemma canon_cstring: "canon s \<Longrightarrow> cstring s"
  by (erule canon_cases) (auto simp: cstring_join, simp add: cstring_def)

lemma canon_normalized:
  assumes "canon s"
  shows "normalized s"
  using assms
proof (cases rule: canon_cases)
  case 1
  then show ?thesis
    by (simp add: normalized_def is_absolute_def no_dot_segments_def no_trailing_slash_def peek_def)
next
  case (2 gs)
  then obtain g hs where gs: "gs = g # hs" by (cases gs) auto
  have lg: "good_seg (last gs)" using 2 by (metis last_in_set list_all_iff)
  then have "last (last gs) \<noteq> SLASH" by (metis good_seg_def last_in_set)
  then have "last s \<noteq> SLASH" using 2 lg by (simp add: last_join good_seg_def)
  moreover have "s \<noteq> []" using 2 by simp
  moreover have "peek s 0 = SLASH" using 2 gs by (simp add: peek_def)
  moreover have "no_double_slash s" using 2 by (simp add: nds_join)
  moreover have "split_slash s = [] # gs" using 2 by (simp add: split_slash_join)
  moreover have "''.'' \<notin> set gs" "''..'' \<notin> set gs"
    using 2(1) by (auto simp: list_all_iff good_seg_def)
  ultimately show ?thesis
    by (simp add: normalized_def is_absolute_def no_dot_segments_def no_trailing_slash_def)
qed

lemma join_split: "join_segs (split_slash t) = SLASH # t"
proof (induction t)
  case Nil
  then show ?case by simp
next
  case (Cons c cs)
  show ?case
  proof (cases "c = SLASH")
    case True
    then show ?thesis using Cons by simp
  next
    case False
    obtain g gs where s: "split_slash cs = g # gs" by (cases "split_slash cs") auto
    with Cons have "g @ join_segs gs = cs" by simp
    then show ?thesis using False s by simp
  qed
qed

lemma split_slash_free: "g \<in> set (split_slash t) \<Longrightarrow> SLASH \<notin> set g"
proof (induction t arbitrary: g)
  case Nil
  then show ?case by simp
next
  case (Cons c cs)
  then show ?case
    by (cases "split_slash cs") (auto split: if_splits)
qed

lemma set_join: "g \<in> set gs \<Longrightarrow> set g \<subseteq> set (join_segs gs)"
  by (induction gs) auto

lemma hd_split_Nil: "hd (split_slash t) = [] \<longleftrightarrow> t = [] \<or> hd t = SLASH"
  by (cases t) (auto split: list.splits)

lemma nds_tail: "no_double_slash (c # t) \<Longrightarrow> no_double_slash t"
  by (cases t) simp_all

lemma empty_seg_inside:
  "[] \<in> set (tl (split_slash t)) \<Longrightarrow> \<not> no_double_slash t \<or> (t \<noteq> [] \<and> last t = SLASH)"
proof (induction t)
  case Nil
  then show ?case by simp
next
  case (Cons d ds)
  obtain h hs where s: "split_slash ds = h # hs" by (cases "split_slash ds") auto
  show ?case
  proof (cases "d = SLASH")
    case True
    with Cons.prems s have "h = [] \<or> [] \<in> set hs" by auto
    then show ?thesis
    proof
      assume "h = []"
      then have "ds = [] \<or> hd ds = SLASH" using s hd_split_Nil [of ds] by simp
      then show ?thesis using True by (cases ds) auto
    next
      assume "[] \<in> set hs"
      then have "[] \<in> set (tl (split_slash ds))" using s by simp
      from Cons.IH [OF this] show ?thesis using nds_tail [of d ds] by (cases ds) auto
    qed
  next
    case False
    with Cons.prems s have "[] \<in> set (tl (split_slash ds))" by simp
    from Cons.IH [OF this] show ?thesis using nds_tail [of d ds] by (cases ds) auto
  qed
qed

lemma normalized_canon:
  assumes n: "normalized s" and c: "cstring s"
  shows "canon s"
proof -
  from n have ab: "peek s 0 = SLASH" by (simp add: normalized_def is_absolute_def)
  then obtain t where s: "s = SLASH # t" by (cases s) (auto simp: peek_def)
  show ?thesis
  proof (cases "t = []")
    case True
    with s show ?thesis by (simp add: canon_root)
  next
    case False
    let ?gs = "split_slash t"
    have j: "s = join_segs ?gs" using s by (simp add: join_split)
    have nds: "no_double_slash s" and nts: "last s \<noteq> SLASH"
      and nd: "''.'' \<notin> set ?gs" "''..'' \<notin> set ?gs"
      using n s False
      by (auto simp: normalized_def no_trailing_slash_def no_dot_segments_def)
    have ne: "[] \<notin> set ?gs"
    proof
      assume e: "[] \<in> set ?gs"
      obtain h hs where sp: "?gs = h # hs" by (cases ?gs) auto
      from e sp have "h = [] \<or> [] \<in> set hs" by auto
      then show False
      proof
        assume "h = []"
        then have "hd t = SLASH" using sp hd_split_Nil [of t] False by simp
        with nds s False show False by (cases t) auto
      next
        assume "[] \<in> set hs"
        then have "[] \<in> set (tl ?gs)" using sp by simp
        from empty_seg_inside [OF this] show False
          using nds nts s False nds_tail [of SLASH t] by auto
      qed
    qed
    have "good_seg g" if "g \<in> set ?gs" for g
    proof -
      have "set g \<subseteq> set s" using that j set_join by metis
      then have "NUL \<notin> set g" using c by (auto simp: cstring_def)
      moreover have "SLASH \<notin> set g" using that by (rule split_slash_free)
      moreover have "g \<noteq> []" "g \<noteq> ''.''" "g \<noteq> ''..''" using that ne nd by auto
      ultimately show ?thesis by (simp add: good_seg_def)
    qed
    then have "list_all good_seg ?gs" by (simp add: list_all_iff)
    then show ?thesis unfolding j by (intro canon_join) simp_all
  qed
qed

subsection \<open>The buffer\<close>

lemma length_written [simp]: "length (written buf p) = p"
  by (simp add: written_def)

lemma written_Suc: "written buf (Suc p) = written buf p @ [buf p]"
  by (simp add: written_def)

lemma written_upd_above [simp]: "p \<le> q \<Longrightarrow> written (buf(q := c)) p = written buf p"
  by (simp add: written_def)

lemma written_nth: "k < p \<Longrightarrow> written buf p ! k = buf k"
  by (simp add: written_def)

lemma written_take: "q \<le> p \<Longrightarrow> written buf q = take q (written buf p)"
  by (simp add: written_def take_map)

lemma read_cstr_written:
  assumes "cstring (written buf p)"
  shows "read_cstr (buf(p := NUL)) (Suc p) = written buf p"
proof -
  have "map (buf(p := NUL)) [0..<Suc p] = written buf p @ [NUL]"
    by (simp add: written_def)
  moreover have "takeWhile (\<lambda>c. c \<noteq> NUL) (written buf p @ [NUL])
                   = written buf p @ takeWhile (\<lambda>c. c \<noteq> NUL) [NUL]"
    using assms by (intro takeWhile_append2) (auto simp: cstring_def)
  ultimately show ?thesis
    by (simp add: read_cstr_def)
qed

lemma canon_nonempty: "canon s \<Longrightarrow> s \<noteq> []"
  by (erule canon_cases) auto

lemma canon_hd: "canon s \<Longrightarrow> s ! 0 = SLASH"
  by (erule canon_cases) (auto simp: neq_Nil_conv)

lemma canon_last:
  assumes "canon s" and "Suc 0 < length s"
  shows "last s \<noteq> SLASH"
  using canon_normalized [OF assms(1)] assms(2)
  by (auto simp: normalized_def no_trailing_slash_def)

lemma canon_len1: "canon s \<Longrightarrow> length s = Suc 0 \<Longrightarrow> s = ''/''"
  using canon_hd [of s] by (cases s) auto

text \<open>The label term on a canonical buffer, and on one with a slash appended.\<close>

lemma path_term_canon:
  assumes "canon (written buf p)"
  shows "path_term buf p = Inr (written buf p)"
proof -
  let ?w = "written buf p"
  have p: "p \<noteq> 0" using canon_nonempty [OF assms] by (auto simp: written_def)
  have n: "\<not> (buf (p - 1) = SLASH \<and> p - 1 \<noteq> 0)"
  proof
    assume a: "buf (p - 1) = SLASH \<and> p - 1 \<noteq> 0"
    then have "Suc 0 < length ?w" by simp
    from canon_last [OF assms this] have "last ?w \<noteq> SLASH" .
    moreover have "last ?w = buf (p - 1)"
      using p by (cases p) (simp_all add: written_Suc)
    ultimately show False using a by simp
  qed
  show ?thesis
    unfolding path_term_def Let_def if_not_P [OF n]
    using p read_cstr_written [OF canon_cstring [OF assms]] by simp
qed

lemma open_form_cases:
  assumes "open_form s"
  obtains "s = ''/''" | w where "canon w" "s = w @ ''/''" "w \<noteq> ''/''"
proof -
  from assms obtain gs where gs: "list_all good_seg gs" "s = join_segs gs @ ''/''"
    by (auto simp: open_form_def)
  show ?thesis
  proof (cases "gs = []")
    case True
    with gs that(1) show ?thesis by simp
  next
    case False
    have "join_segs gs \<noteq> ''/''"
    proof
      assume e: "join_segs gs = ''/''"
      from False obtain g hs where "gs = g # hs" by (cases gs) auto
      with e have "g = []" by simp
      with gs(1) \<open>gs = g # hs\<close> show False by (simp add: good_seg_def)
    qed
    with gs False that(2) [of "join_segs gs"] show ?thesis by (simp add: canon_join)
  qed
qed

lemma path_term_open:
  assumes "open_form (written buf p)"
  shows "\<exists>r. path_term buf p = Inr r \<and> canon r"
  using assms
proof (cases rule: open_form_cases)
  case 1
  then have "canon (written buf p)" by (simp add: canon_root)
  then show ?thesis by (simp add: path_term_canon)
next
  case (2 w)
  let ?q = "p - 1"
  have p: "p = Suc (length w)" using 2(2) by (metis length_written length_append_singleton)
  have wq: "written buf ?q = w"
    using 2(2) p written_take [of ?q p buf] by simp
  have "buf ?q = SLASH"
    using 2(2) p written_nth [of ?q p buf] by (simp add: nth_append)
  moreover have "?q \<noteq> 0" using p canon_nonempty [OF 2(1)] by simp
  moreover have "read_cstr (buf(?q := NUL)) (Suc ?q) = w"
    using read_cstr_written [of buf ?q] canon_cstring [OF 2(1)] wq by simp
  ultimately have "path_term buf p = Inr w"
    using p by (simp add: path_term_def)
  with 2(1) show ?thesis by simp
qed

text \<open>Rewinding from a canonical buffer stops at a slash and leaves a canonical one.\<close>

lemma rewind_finds:
  "buf 0 = SLASH \<Longrightarrow> \<exists>q\<le>p. rewind buf p = Inr q \<and> buf q = SLASH"
proof (induction p)
  case 0
  then show ?case by (subst rewind.simps) simp
next
  case (Suc p)
  show ?case
  proof (cases "buf (Suc p) = SLASH")
    case True
    then show ?thesis by (subst rewind.simps) auto
  next
    case False
    from Suc obtain q where "q \<le> p" "rewind buf p = Inr q" "buf q = SLASH" by blast
    then show ?thesis using False by (subst rewind.simps) auto
  qed
qed

lemma take_join_at_slash:
  "list_all good_seg gs \<Longrightarrow> q < length (join_segs gs) \<Longrightarrow> join_segs gs ! q = SLASH \<Longrightarrow>
   \<exists>hs ks. gs = hs @ ks \<and> take q (join_segs gs) = join_segs hs"
proof (induction gs arbitrary: q)
  case Nil
  then show ?case by simp
next
  case (Cons g gs)
  show ?case
  proof (cases q)
    case 0
    then show ?thesis by (intro exI [of _ "[]"] exI [of _ "g # gs"]) simp
  next
    case (Suc r)
    have sf: "SLASH \<notin> set g" using Cons.prems(1) by (simp add: good_seg_def)
    from Cons.prems Suc have r: "r < length (g @ join_segs gs)" "(g @ join_segs gs) ! r = SLASH"
      by simp_all
    have "\<not> r < length g"
    proof
      assume "r < length g"
      then have "g ! r = SLASH" using r(2) by (simp add: nth_append)
      with \<open>r < length g\<close> sf show False by (metis nth_mem)
    qed
    then have ge: "length g \<le> r" by simp
    with r have "r - length g < length (join_segs gs)" "join_segs gs ! (r - length g) = SLASH"
      by (simp_all add: nth_append)
    with Cons.IH [of "r - length g"] Cons.prems(1) obtain hs ks
      where "gs = hs @ ks" "take (r - length g) (join_segs gs) = join_segs hs" by auto
    then show ?thesis using Suc ge
      by (intro exI [of _ "g # hs"] exI [of _ ks]) simp
  qed
qed

lemma canon_take_at_slash:
  assumes "canon w" and "q < length w" and "w ! q = SLASH" and "q \<noteq> 0"
  shows "canon (take q w)"
  using assms(1)
proof (cases rule: canon_cases)
  case 1
  then have "q = 0" using assms(2) by simp
  with assms(4) show ?thesis by simp
next
  case (2 gs)
  from take_join_at_slash [OF 2(1)] assms(2,3) 2(3) obtain hs ks
    where h: "gs = hs @ ks" "take q w = join_segs hs" by blast
  have "hs \<noteq> []" using h(2) assms(2,4) by auto
  moreover have "list_all good_seg hs" using 2(1) h(1) by simp
  ultimately show ?thesis unfolding h(2) by (rule canon_join [rotated])
qed

lemma rewind_canon:
  assumes "canon (written buf p)"
  shows "\<exists>q. rewind buf p = Inr q \<and> (if q = 0 then Suc q else q) \<le> p
             \<and> canon (written buf (if q = 0 then Suc q else q))"
proof -
  let ?w = "written buf p"
  have p: "p \<noteq> 0" using canon_nonempty [OF assms] by (auto simp: written_def)
  have "buf 0 = SLASH" using canon_hd [OF assms] p by (simp add: written_nth)
  with rewind_finds [of buf p] obtain q
    where q: "q \<le> p" "rewind buf p = Inr q" "buf q = SLASH" by blast
  consider "q = 0" | "q = p" | "q \<noteq> 0" "q < p" using q(1) by fastforce
  then show ?thesis
  proof cases
    case 1
    have "written buf (Suc 0) = ''/''" using \<open>buf 0 = SLASH\<close> by (simp add: written_def)
    then show ?thesis using 1 q p by (simp add: canon_root)
  next
    case 2
    then show ?thesis using q p assms by auto
  next
    case 3
    have "canon (take q ?w)"
      using assms 3 q by (intro canon_take_at_slash) (simp_all add: written_nth)
    then show ?thesis using 3 q written_take [of q p buf] by simp
  qed
qed

subsection \<open>The input\<close>

lemma peek_Nil [simp]: "peek [] 0 = NUL"
  by (simp add: peek_def)

lemma peek_Cons [simp]: "peek (c # cs) 0 = c"
  by (simp add: peek_def)

lemma cur_seg_Nil [simp]: "cur_seg [] = []"
  by (simp add: cur_seg_def)

lemma cur_seg_Cons:
  "cur_seg (c # cs) = (if c \<noteq> SLASH \<and> c \<noteq> NUL then c # cur_seg cs else [])"
  by (simp add: cur_seg_def)

lemma cur_seg_free: "SLASH \<notin> set (cur_seg path)" "NUL \<notin> set (cur_seg path)"
  by (auto simp: cur_seg_def dest: set_takeWhileD)

lemma cur_seg_stop: "peek path 0 = SLASH \<or> peek path 0 = NUL \<Longrightarrow> cur_seg path = []"
  by (cases path) (auto simp: cur_seg_Cons)

lemma cur_seg_empty: "cur_seg path = [] \<Longrightarrow> peek path 0 = SLASH \<or> peek path 0 = NUL"
  by (cases path) (auto simp: cur_seg_Cons split: if_splits)

lemma cur_seg_step:
  "peek path 0 \<noteq> SLASH \<Longrightarrow> peek path 0 \<noteq> NUL \<Longrightarrow>
   cur_seg path = peek path 0 # cur_seg (tl path)"
  by (cases path) (auto simp: cur_seg_Cons)

lemma dot_caught:
  assumes "cur_seg path = ''.''"
  shows "kstrncmp path ''.'' 2 = 0 \<or> kstrncmp path ''./'' 2 = 0"
proof -
  from assms obtain r where p: "path = DOT # r" and r: "cur_seg r = []"
    by (cases path) (auto simp: cur_seg_Cons split: if_splits)
  from cur_seg_empty [OF r] show ?thesis
    unfolding p by (cases r) (auto simp: kstrncmp_def)
qed

lemma dotdot_caught:
  assumes "cur_seg path = ''..''"
  shows "kstrncmp path ''..'' 3 = 0 \<or> kstrncmp path ''../'' 3 = 0"
proof -
  from assms obtain r1 where p1: "path = DOT # r1" and r1: "cur_seg r1 = ''.''"
    by (cases path) (auto simp: cur_seg_Cons split: if_splits)
  from r1 obtain r where p2: "r1 = DOT # r" and r: "cur_seg r = []"
    by (cases r1) (auto simp: cur_seg_Cons split: if_splits)
  from cur_seg_empty [OF r] show ?thesis
    unfolding p1 p2 by (cases r) (auto simp: kstrncmp_def)
qed

lemma dotdotslash_rest:
  "kstrncmp path ''../'' 3 = 0 \<Longrightarrow> peek (drop 2 path) 0 = SLASH"
  by (cases path; cases "tl path"; cases "tl (tl path)")
     (auto simp: kstrncmp_def split: if_splits)

lemma dotslash_rest:
  "kstrncmp path ''./'' 2 = 0 \<Longrightarrow> peek (drop 1 path) 0 = SLASH"
  by (cases path; cases "tl path") (auto simp: kstrncmp_def split: if_splits)

subsection \<open>The steps keep the invariant\<close>

lemma open_good_canon:
  assumes "open_form opn" and "good_seg g"
  shows "canon (opn @ g)"
proof -
  from assms(1) obtain gs where gs: "list_all good_seg gs" "opn = join_segs gs @ ''/''"
    by (auto simp: open_form_def)
  have "opn @ g = join_segs (gs @ [g])" using gs by simp
  moreover have "list_all good_seg (gs @ [g])" using gs assms(2) by simp
  ultimately show ?thesis by (metis canon_join snoc_eq_iff_butlast)
qed

lemma canon_split:
  assumes "canon w"
  obtains "w = ''/''" | opn g where "open_form opn" "good_seg g" "w = opn @ g"
  using assms
proof (cases rule: canon_cases)
  case 1
  then show ?thesis using that(1) by simp
next
  case (2 gs)
  then obtain hs g where h: "gs = hs @ [g]" by (metis rev_exhaust)
  with 2 have "open_form (join_segs hs @ ''/'')" "good_seg g" "w = (join_segs hs @ ''/'') @ g"
    by (auto simp: open_form_def)
  then show ?thesis using that(2) by blast
qed

lemma open_root: "open_form ''/''"
  unfolding open_form_def by (rule exI [of _ "[]"]) simp

lemma canon_open: "canon w \<Longrightarrow> w \<noteq> ''/'' \<Longrightarrow> open_form (w @ ''/'')"
  by (erule canon_cases) (auto simp: open_form_def)

lemma loop_slash:
  assumes "path_inv False buf p path" and "peek path 0 = SLASH"
  shows "path_inv True buf p (tl path)"
proof -
  from assms(1) obtain opn part where i: "written buf p = opn @ part" "open_form opn"
    "good_seg (part @ cur_seg path)
       \<or> (part = [] \<and> cur_seg path = [] \<and> (peek path 0 = NUL \<or> opn = ''/''))"
    by (auto simp: path_inv_def)
  have c: "cur_seg path = []" using assms(2) by (simp add: cur_seg_stop)
  from i(3) have "canon (opn @ part)"
  proof
    assume "good_seg (part @ cur_seg path)"
    then show ?thesis using c i(2) by (simp add: open_good_canon)
  next
    assume "part = [] \<and> cur_seg path = [] \<and> (peek path 0 = NUL \<or> opn = ''/'')"
    then show ?thesis using assms(2) by (auto simp: canon_root)
  qed
  then show ?thesis using i(1) by (simp add: path_inv_def)
qed

lemma loop_nul:
  assumes "path_inv False buf p path" and "peek path 0 = NUL"
  shows "\<exists>r. path_term buf p = Inr r \<and> canon r"
proof -
  from assms(1) obtain opn part where i: "written buf p = opn @ part" "open_form opn"
    "good_seg (part @ cur_seg path)
       \<or> (part = [] \<and> cur_seg path = [] \<and> (peek path 0 = NUL \<or> opn = ''/''))"
    by (auto simp: path_inv_def)
  have c: "cur_seg path = []" using assms(2) by (simp add: cur_seg_stop)
  from i(3) show ?thesis
  proof
    assume "good_seg (part @ cur_seg path)"
    then have "canon (written buf p)" using c i by (simp add: open_good_canon)
    then show ?thesis by (simp add: path_term_canon)
  next
    assume "part = [] \<and> cur_seg path = [] \<and> (peek path 0 = NUL \<or> opn = ''/'')"
    then have "open_form (written buf p)" using i by simp
    then show ?thesis by (rule path_term_open)
  qed
qed

lemma loop_default:
  assumes "path_inv False buf p path" and "peek path 0 \<noteq> SLASH" and "peek path 0 \<noteq> NUL"
  shows "path_inv False (buf(p := peek path 0)) (Suc p) (tl path)"
proof -
  let ?c = "peek path 0"
  from assms(1) obtain opn part where i: "written buf p = opn @ part" "open_form opn"
    "SLASH \<notin> set part" "NUL \<notin> set part"
    "good_seg (part @ cur_seg path)
       \<or> (part = [] \<and> cur_seg path = [] \<and> (peek path 0 = NUL \<or> opn = ''/''))"
    by (auto simp: path_inv_def)
  have c: "cur_seg path = ?c # cur_seg (tl path)" using assms(2,3) by (rule cur_seg_step)
  with i(5) have g: "good_seg ((part @ [?c]) @ cur_seg (tl path))" by simp
  have "written (buf(p := ?c)) (Suc p) = opn @ (part @ [?c])"
    using i(1) by (simp add: written_Suc)
  moreover have "SLASH \<notin> set (part @ [?c])" "NUL \<notin> set (part @ [?c])"
    using i(3,4) assms(2,3) by auto
  ultimately show ?thesis
    unfolding path_inv_def using i(2) g by (simp only: if_False) blast
qed

lemma fr_slash:
  assumes "canon (written buf p)" and "peek path 0 = SLASH"
  shows "path_inv False buf p path"
proof -
  have c: "cur_seg path = []" using assms(2) by (simp add: cur_seg_stop)
  from assms(1) show ?thesis
  proof (cases rule: canon_split)
    case 1
    then show ?thesis
      unfolding path_inv_def using c open_root
      by (simp only: if_False) (intro exI [of _ "''/''"] exI [of _ "[]"], simp)
  next
    case (2 opn g)
    then show ?thesis
      unfolding path_inv_def using c
      by (simp only: if_False) (intro exI [of _ opn] exI [of _ g], simp add: good_seg_def)
  qed
qed

lemma fr_regular:
  assumes w: "canon (written buf p)"
    and n: "peek path 0 \<noteq> SLASH"
      "\<not> (kstrncmp path ''.'' 2 = 0 \<or> kstrncmp path ''./'' 3 = 0)"
      "\<not> (kstrncmp path ''..'' 3 = 0 \<or> kstrncmp path ''../'' 4 = 0)"
      "kstrncmp path ''../'' 3 \<noteq> 0"
      "kstrncmp path ''./'' 2 \<noteq> 0"
  shows "p \<noteq> 0"
    and "p - 1 \<noteq> 0 \<and> buf (p - 1) \<noteq> SLASH \<Longrightarrow> path_inv False (buf(p := SLASH)) (Suc p) path"
    and "\<not> (p - 1 \<noteq> 0 \<and> buf (p - 1) \<noteq> SLASH) \<Longrightarrow> path_inv False buf p path"
proof -
  show p: "p \<noteq> 0" using canon_nonempty [OF w] by (auto simp: written_def)
  have nd: "cur_seg path \<noteq> ''.''" "cur_seg path \<noteq> ''..''"
    using n dot_caught [of path] dotdot_caught [of path] by auto
  have g: "good_seg ([] @ cur_seg path)
       \<or> ([] = ([] :: string) \<and> cur_seg path = [] \<and> (peek path 0 = NUL \<or> opn = ''/''))" for opn
  proof (cases "cur_seg path = []")
    case True
    with cur_seg_empty [OF True] n(1) show ?thesis by simp
  next
    case False
    then show ?thesis using nd cur_seg_free [of path] by (simp add: good_seg_def)
  qed
  {
    assume a: "p - 1 \<noteq> 0 \<and> buf (p - 1) \<noteq> SLASH"
    have "written buf p \<noteq> ''/''"
    proof
      assume "written buf p = ''/''"
      then have "length (written buf p) = 1" by simp
      with a show False by simp
    qed
    then have o: "open_form (written buf p @ ''/'')" using w by (rule canon_open [rotated])
    have "written (buf(p := SLASH)) (Suc p) = (written buf p @ ''/'') @ []"
      by (simp add: written_Suc)
    then show "path_inv False (buf(p := SLASH)) (Suc p) path"
      unfolding path_inv_def using o g [of "written buf p @ ''/''"]
      by (simp only: if_False)
         (intro exI [of _ "written buf p @ ''/''"] exI [of _ "[]"], simp)
  }
  {
    assume a: "\<not> (p - 1 \<noteq> 0 \<and> buf (p - 1) \<noteq> SLASH)"
    have "written buf p = ''/''"
    proof (cases "p - 1 = 0")
      case True
      with p have "length (written buf p) = Suc 0" by simp
      with w show ?thesis by (rule canon_len1)
    next
      case False
      with a have b: "buf (p - 1) = SLASH" by simp
      from False have "Suc 0 < length (written buf p)" by simp
      from canon_last [OF w this] have "last (written buf p) \<noteq> SLASH" .
      moreover have "last (written buf p) = buf (p - 1)"
        using p by (cases p) (simp_all add: written_Suc)
      ultimately show ?thesis using b by simp
    qed
    then show "path_inv False buf p path"
      unfolding path_inv_def using open_root g [of "''/''"]
      by (simp only: if_False) (intro exI [of _ "''/''"] exI [of _ "[]"], simp)
  }
qed

subsection \<open>The scan\<close>

lemma path_scan_canon:
  "path_inv fr buf p path \<Longrightarrow> \<exists>r. path_scan fr buf p path = Inr r \<and> canon r"
proof (induction fr buf p path rule: path_scan.induct)
  case (1 fr buf p path)
  note inv = "1.prems"
  show ?case
  proof (cases fr)
    case False
    consider (slash) "peek path 0 = SLASH" | (nul) "peek path 0 \<noteq> SLASH" "peek path 0 = NUL"
      | (other) "peek path 0 \<noteq> SLASH" "peek path 0 \<noteq> NUL" by blast
    then show ?thesis
    proof cases
      case slash
      have "path_inv True buf p (tl path)" using inv False slash by (simp add: loop_slash)
      from "1.IH"(1) [OF False slash this] show ?thesis
        using False slash by (subst path_scan.simps) simp
    next
      case nul
      from loop_nul [of buf p path] inv False nul show ?thesis
        by (subst path_scan.simps) simp
    next
      case other
      have "path_inv False (buf(p := peek path 0)) (Suc p) (tl path)"
        using inv False other by (simp add: loop_default)
      from "1.IH"(2) [OF False other this] show ?thesis
        using False other by (subst path_scan.simps) (simp add: fun_upd_def)
    qed
  next
    case True
    then have t: "\<not> \<not> fr" by simp
    from inv True have w: "canon (written buf p)" by (simp add: path_inv_def)
    show ?thesis
    proof (cases "peek path 0 = SLASH")
      case slash: True
      have "path_inv False buf p path" using w slash by (rule fr_slash)
      from "1.IH"(3) [OF t slash this] show ?thesis
        using True slash by (subst path_scan.simps) simp
    next
      case ns: False
      show ?thesis
      proof (cases "kstrncmp path ''.'' 2 = 0 \<or> kstrncmp path ''./'' 3 = 0")
        case dot: True
        then show ?thesis
          using True ns path_term_canon [OF w] w by (subst path_scan.simps) simp
      next
        case nd: False
        from rewind_canon [OF w] obtain q where q: "rewind buf p = Inr q"
          "canon (written buf (if q = 0 then Suc q else q))" by blast
        show ?thesis
        proof (cases "kstrncmp path ''..'' 3 = 0 \<or> kstrncmp path ''../'' 4 = 0")
          case dd: True
          then show ?thesis
            using True ns nd q path_term_canon [OF q(2)]
            by (subst path_scan.simps) simp
        next
          case ndd: False
          show ?thesis
          proof (cases "kstrncmp path ''../'' 3 = 0")
            case up: True
            let ?x = "if q = 0 then Suc q else q"
            have "canon (written (buf(?x := NUL)) ?x)" using q(2) by simp
            then have "path_inv False (buf(?x := NUL)) ?x (drop 2 path)"
              using dotdotslash_rest [OF up] by (rule fr_slash)
            from "1.IH"(4) [OF t ns nd ndd up q(1) refl this] show ?thesis
              using True ns nd ndd up q(1)
              by (subst path_scan.simps) (simp add: Let_def fun_upd_def)
          next
            case nup: False
            show ?thesis
            proof (cases "kstrncmp path ''./'' 2 = 0")
              case here: True
              have "path_inv False buf p (drop 1 path)"
                using w dotslash_rest [OF here] by (rule fr_slash)
              from "1.IH"(5) [OF t ns nd ndd nup here this] show ?thesis
                using True ns nd ndd nup here by (subst path_scan.simps) simp
            next
              case nhere: False
              note r = fr_regular [OF w ns nd ndd nup nhere]
              show ?thesis
              proof (cases "p - 1 \<noteq> 0 \<and> buf (p - 1) \<noteq> SLASH")
                case sep: True
                from "1.IH"(6) [OF t ns nd ndd nup nhere r(1) sep r(2) [OF sep]] show ?thesis
                  using True ns nd ndd nup nhere r(1) sep
                  by (subst path_scan.simps) (simp add: fun_upd_def)
              next
                case nsep: False
                from "1.IH"(7) [OF t ns nd ndd nup nhere r(1) nsep r(3) [OF nsep]] show ?thesis
                  using True ns nd ndd nup nhere r(1) nsep
                  by (subst path_scan.simps) auto
              qed
            qed
          qed
        qed
      qed
    qed
  qed
qed

subsection \<open>The normalizer\<close>

lemma written_kstrcpy: "written (kstrcpy buf s) (length s) = s"
  by (intro nth_equalityI) (simp_all add: written_def kstrcpy_def)

lemma read_kstrcpy: "cstring s \<Longrightarrow> read_cstr (kstrcpy buf s) (Suc (length s)) = s"
proof -
  assume c: "cstring s"
  have "kstrcpy buf s = (kstrcpy buf s)(length s := NUL)"
    by (auto simp: kstrcpy_def fun_eq_iff)
  then have "read_cstr (kstrcpy buf s) (Suc (length s))
               = read_cstr ((kstrcpy buf s)(length s := NUL)) (Suc (length s))" by simp
  also have "\<dots> = written (kstrcpy buf s) (length s)"
    using c by (intro read_cstr_written) (simp add: written_kstrcpy)
  finally show ?thesis by (simp add: written_kstrcpy)
qed

lemma absolute_path_normalized:
  assumes "cstring pwd" and "normalized pwd"
  shows "\<exists>r. vfs_get_absolute_path buf path pwd = Inr r \<and> normalized r"
proof -
  have c: "canon pwd" using assms by (intro normalized_canon)
  show ?thesis
  proof (cases "peek path 0 = NUL")
    case True
    then show ?thesis
      using assms by (simp add: vfs_get_absolute_path_def read_kstrcpy kstrlen_def)
  next
    case False
    show ?thesis
    proof (cases "peek path 0 = SLASH")
      case rel: False
      have "path_inv True (kstrcpy buf pwd) (length pwd) path"
        using c by (simp add: path_inv_def written_kstrcpy)
      from path_scan_canon [OF this] show ?thesis
        using False rel canon_normalized
        by (auto simp: vfs_get_absolute_path_def kstrlen_def)
    next
      case ab: True
      have "written (buf(0 := SLASH)) 1 = ''/''" by (simp add: written_def)
      then have "path_inv True (buf(0 := SLASH)) 1 (tl path)"
        by (simp add: path_inv_def canon_root)
      from path_scan_canon [OF this] show ?thesis
        using False ab canon_normalized
        by (auto simp: vfs_get_absolute_path_def)
    qed
  qed
qed

text \<open>
  C2, amended. For every input, every content of the output buffer and every \<open>cwd\<close> that
  is itself normalized (a C string that is absolute, has no \<open>//\<close>, no \<open>.\<close> or \<open>..\<close>
  segment and no trailing \<open>/\<close> unless it is \<open>/\<close>), \<open>vfs_get_absolute_path\<close> returns, and
  its result is absolute, has no \<open>//\<close>, no \<open>.\<close> or \<open>..\<close> segment and no trailing \<open>/\<close>
  unless it is \<open>/\<close>. In particular \<open>cwd = /a/b/c\<close> and input \<open>../../x/./y\<close> give \<open>/a/x/y\<close>.
\<close>

theorem absolute_path_result_normalized:
  "(cstring pwd \<and> normalized pwd \<longrightarrow>
      (\<exists>r. vfs_get_absolute_path buf path pwd = Inr r
           \<and> is_absolute r \<and> no_double_slash r \<and> no_dot_segments r \<and> no_trailing_slash r))
   \<and> vfs_get_absolute_path buf ''../../x/./y'' ''/a/b/c'' = Inr ''/a/x/y''"
proof (intro conjI impI)
  assume "cstring pwd \<and> normalized pwd"
  then have "\<exists>r. vfs_get_absolute_path buf path pwd = Inr r \<and> normalized r"
    by (intro absolute_path_normalized) simp_all
  then show "\<exists>r. vfs_get_absolute_path buf path pwd = Inr r
           \<and> is_absolute r \<and> no_double_slash r \<and> no_dot_segments r \<and> no_trailing_slash r"
    by (simp add: normalized_def)
next
  show "vfs_get_absolute_path buf ''../../x/./y'' ''/a/b/c'' = Inr ''/a/x/y''"
    by (simp add: vfs_get_absolute_path_def path_scan.simps rewind.simps path_term_def
          read_cstr_def kstrcpy_def kstrlen_def kstrncmp_def peek_def upt_conv_Cons)
qed

theorem absolute_path_result_normalized_witness:
  "cstring ''/a/b'' \<and> normalized ''/a/b''
   \<and> vfs_get_absolute_path zeroed ''../c'' ''/a/b'' = Inr ''/a/c''
   \<and> is_absolute ''/a/c'' \<and> no_double_slash ''/a/c'' \<and> no_dot_segments ''/a/c''
   \<and> no_trailing_slash ''/a/c''"
  using absolute_path_result_normalized [THEN conjunct1, of "''/a/b''" zeroed "''../c''"]
  by (simp add: vfs_get_absolute_path_def path_scan.simps rewind.simps path_term_def
        read_cstr_def kstrcpy_def kstrlen_def kstrncmp_def peek_def upt_conv_Cons zeroed_def
        cstring_def normalized_def is_absolute_def no_dot_segments_def no_trailing_slash_def)

text \<open>
  C2 as stated fails for a \<open>cwd\<close> that is absolute but not normalized, since the function
  copies \<open>cwd\<close> as it is: with the empty input the result is \<open>cwd\<close> itself, here with its
  trailing \<open>/\<close>, and with a relative input a \<open>//\<close> of \<open>cwd\<close> stays in the result.
\<close>

theorem absolute_path_keeps_bad_cwd:
  "is_absolute ''/a/''
   \<and> vfs_get_absolute_path zeroed '''' ''/a/'' = Inr ''/a/''
   \<and> \<not> no_trailing_slash ''/a/''
   \<and> is_absolute ''/a//b''
   \<and> vfs_get_absolute_path zeroed ''x'' ''/a//b'' = Inr ''/a//b/x''
   \<and> \<not> no_double_slash ''/a//b/x''"
  by (simp add: vfs_get_absolute_path_def path_scan.simps rewind.simps path_term_def
        read_cstr_def kstrcpy_def kstrlen_def kstrncmp_def peek_def upt_conv_Cons zeroed_def
        is_absolute_def no_trailing_slash_def)

end
